theory Spec2Isabelle
  imports Main "HOL-Library.Signed_Division"
begin

section \<open>Giophantus: polynomial arithmetic, key generation, encryption, decryption\<close>

text \<open>
  The repository holds two variants of the same prototype.  The procedural one (the
  file with \<open>keygen\<close>, \<open>encrypt\<close>, \<open>decrypt\<close>) reads the ambient names
  \<open>q\<close>, \<open>n\<close>, \<open>l\<close>, \<open>dX\<close>, \<open>dr\<close>, which it never declares; they are taken here as
  a parameter \<open>g\<close> of type \<open>GiophantusParams\<close> (the fields carry exactly these names).
  The object-oriented one (\<open>main.cpp\<close>) fixes the modulus as the constant
  \<open>MODULO\<close>.

  A value of the C++ type \<open>int\<close> is an integer of \<open>[-2^31, 2^31)\<close>.  Where the field
  arithmetic adds or multiplies, its result is taken modulo \<open>2 ^ 32\<close> into that range
  (\<open>wrap\<close>): this is what the compiled program computes, the language itself leaves
  a signed overflow undefined.  The other \<open>int\<close> expressions of the source (\<open>q - 1\<close>,
  \<open>n - 1\<close>, \<open>degree + 1\<close> and the like) are kept within \<open>int\<close> by the hypotheses of
  the theorems that depend on them.  \<open>size_t\<close> arithmetic is written out modulo
  \<open>2 ^ 64\<close>.  What the code throws, and what it leaves undefined by dividing by zero
  or by building a distribution over an empty range, is a value of type \<open>error\<close>.
\<close>

subsection \<open>Data\<close>

record GiophantusParams =
  q :: int
  n :: int
  l :: int
  dX :: int
  dr :: int
  mlen :: int

definition param128 :: GiophantusParams where
  "param128 = \<lparr>q = 17, n = 11, l = 4, dX = 2, dr = 2, mlen = 32\<rparr>"

definition param192 :: GiophantusParams where
  "param192 = \<lparr>q = 23, n = 19, l = 6, dX = 3, dr = 3, mlen = 48\<rparr>"

definition param256 :: GiophantusParams where
  "param256 = \<lparr>q = 29, n = 23, l = 8, dX = 4, dr = 4, mlen = 64\<rparr>"

text \<open>The parameter structure of \<open>main.cpp\<close>.\<close>

record GiophantusParams_oop =
  modulo :: int
  degree :: int
  noise_bound :: int
  block_size :: int

definition MODULO :: int where
  "MODULO = 17"

datatype error =
  LengthError \<comment> \<open>\<open>std::length_error\<close>: a vector larger than \<open>max_size()\<close>\<close>
  | DivisionByZero \<comment> \<open>\<open>%\<close> with a zero divisor\<close>
  | EmptyRange \<comment> \<open>\<open>uniform_int_distribution(a, b)\<close> with \<open>b < a\<close>\<close>

datatype Polynomial = Polynomial (coeffs: "int list")

text \<open>\<open>std::vector<int>::max_size()\<close>, and the conversions between \<open>int\<close> and \<open>size_t\<close>.\<close>

definition max_size :: nat where
  "max_size = 2 ^ 61 - 1"

definition to_size_t :: "int \<Rightarrow> nat" where
  "to_size_t k = nat (k mod 2 ^ 64)"

definition to_int :: "nat \<Rightarrow> int" where
  "to_int s = (let r = int s mod 2 ^ 32 in if r < 2 ^ 31 then r else r - 2 ^ 32)"

subsection \<open>Field arithmetic\<close>

text \<open>
  \<open>wrap k\<close> is the \<open>int\<close> that an addition or a multiplication leaves when its
  mathematical result is \<open>k\<close>: the representative of \<open>k\<close> modulo \<open>2 ^ 32\<close> in
  \<open>[-2^31, 2^31)\<close>.
\<close>

definition wrap :: "int \<Rightarrow> int" where
  "wrap k = (k + 2 ^ 31) mod 2 ^ 32 - 2 ^ 31"

text \<open>
  \<open>%\<close> truncates towards zero (\<open>smod\<close>).  With \<open>p = 0\<close> it divides by zero, which
  C++ leaves undefined: the polynomial operations below yield \<open>DivisionByZero\<close>
  wherever the source would evaluate one of these three functions with a zero modulus.
\<close>

definition mod_fn :: "int \<Rightarrow> int \<Rightarrow> int" where
  "mod_fn a p = wrap ((a smod p) + p) smod p"

definition add :: "int \<Rightarrow> int \<Rightarrow> int \<Rightarrow> int" where
  "add a b p = mod_fn (wrap (a + b)) p"

definition mul :: "int \<Rightarrow> int \<Rightarrow> int \<Rightarrow> int" where
  "mul a b p = mod_fn (wrap (a * b)) p"

subsection \<open>Polynomials (procedural variant)\<close>

text \<open>\<open>degree\<close> returns \<open>coeffs.size() - 1\<close>, a \<open>size_t\<close>, converted to \<open>int\<close>.\<close>

definition degree :: "Polynomial \<Rightarrow> int" where
  "degree this = to_int ((length (coeffs this) + 2 ^ 64 - 1) mod 2 ^ 64)"

function trim_coeffs :: "int list \<Rightarrow> int list" where
  "trim_coeffs cs = (if cs \<noteq> [] \<and> last cs = 0 then trim_coeffs (butlast cs) else cs)"
  by pat_completeness auto
termination
  by (relation "measure length") auto

declare trim_coeffs.simps [simp del]

definition trim :: "Polynomial \<Rightarrow> Polynomial" where
  "trim this = Polynomial (trim_coeffs (coeffs this))"

definition operator_add :: "GiophantusParams \<Rightarrow> Polynomial \<Rightarrow> Polynomial \<Rightarrow> error + Polynomial" where
  "operator_add g this other =
     (let sz = max (length (coeffs this)) (length (coeffs other)) in
      if 0 < sz \<and> q g = 0 then Inl DivisionByZero
      else Inr (Polynomial (map (\<lambda>i.
             add (if i < length (coeffs this) then coeffs this ! i else 0)
                 (if i < length (coeffs other) then coeffs other ! i else 0) (q g))
             [0..<sz])))"

definition operator_mul :: "GiophantusParams \<Rightarrow> Polynomial \<Rightarrow> Polynomial \<Rightarrow> error + Polynomial" where
  "operator_mul g this other =
     (let sz = (length (coeffs this) + length (coeffs other) + 2 ^ 64 - 1) mod 2 ^ 64 in
      if max_size < sz then Inl LengthError
      else if coeffs this \<noteq> [] \<and> coeffs other \<noteq> [] \<and> q g = 0 then Inl DivisionByZero
      else Inr (Polynomial
        (fold (\<lambda>i. fold (\<lambda>j result.
                 result[i + j := add (result ! (i + j))
                                     (mul (coeffs this ! i) (coeffs other ! j) (q g)) (q g)])
               [0..<length (coeffs other)])
           [0..<length (coeffs this)] (replicate sz 0))))"

definition mod_tn :: "GiophantusParams \<Rightarrow> Polynomial \<Rightarrow> error + Polynomial" where
  "mod_tn g this =
     (let sz = to_size_t (n g) in
      if max_size < sz then Inl LengthError
      else if coeffs this \<noteq> [] \<and> (sz = 0 \<or> q g = 0) then Inl DivisionByZero
      else Inr (Polynomial
        (fold (\<lambda>i result. result[i mod sz := add (result ! (i mod sz)) (coeffs this ! i) (q g)])
           [0..<length (coeffs this)] (replicate sz 0))))"

subsection \<open>The randomness source\<close>

text \<open>
  The generator (\<open>std::mt19937\<close>, seeded from \<open>std::random_device\<close>) is a state
  passed through every draw.  It is kept abstract: \<open>raw\<close> is the sequence of values
  the generator will deliver and \<open>pos\<close> counts the draws made so far.
  \<open>uniform_int_distribution(a, b)\<close> maps a raw value into \<open>[a, b]\<close>; every sequence
  of results the distribution can return arises from some \<open>raw\<close>.
\<close>

record rng_state =
  raw :: "nat \<Rightarrow> nat"
  pos :: nat

definition uniform_int :: "int \<Rightarrow> int \<Rightarrow> rng_state \<Rightarrow> int \<times> rng_state" where
  "uniform_int a b s = (a + int (raw s (pos s) mod nat (b - a + 1)), s\<lparr>pos := Suc (pos s)\<rparr>)"

text \<open>The loop that assigns one draw to each of the \<open>k\<close> coefficients, in index order.\<close>

fun fill :: "nat \<Rightarrow> int \<Rightarrow> int \<Rightarrow> rng_state \<Rightarrow> int list \<times> rng_state" where
  "fill 0 a b s = ([], s)"
| "fill (Suc k) a b s =
     (let (c, s') = uniform_int a b s; (cs, s'') = fill k a b s' in (c # cs, s''))"

definition random_polynomial :: "int \<Rightarrow> int \<Rightarrow> rng_state \<Rightarrow> error + (Polynomial \<times> rng_state)" where
  "random_polynomial deg max_coeff s =
     (if max_coeff - 1 < 0 then Inl EmptyRange
      else if max_size < to_size_t (deg + 1) then Inl LengthError
      else (let (cs, s') = fill (to_size_t (deg + 1)) 0 (max_coeff - 1) s
            in Inr (Polynomial cs, s')))"

subsection \<open>Key generation, encryption, decryption (procedural variant)\<close>

definition is_irreducible :: "Polynomial \<Rightarrow> bool" where
  "is_irreducible poly = True"

text \<open>
  The retry loop of \<open>generate_irreducible_X\<close>, with the test it applies to each
  candidate as a parameter; the source applies \<open>is_irreducible\<close>.  A run that never
  leaves the loop is the value \<open>None\<close>.
\<close>

partial_function (option) generate_irreducible_X_with ::
  "(Polynomial \<Rightarrow> bool) \<Rightarrow> GiophantusParams \<Rightarrow> rng_state \<Rightarrow> (error + (Polynomial \<times> rng_state)) option"
where
  "generate_irreducible_X_with valid g s =
     (case random_polynomial (dX g) (q g - 1) s of
        Inl err \<Rightarrow> Some (Inl err)
      | Inr (X, s') \<Rightarrow>
          if valid X then Some (Inr (X, s')) else generate_irreducible_X_with valid g s')"

declare generate_irreducible_X_with.simps [code]

definition generate_irreducible_X ::
  "GiophantusParams \<Rightarrow> Polynomial \<Rightarrow> Polynomial \<Rightarrow> rng_state \<Rightarrow> (error + (Polynomial \<times> rng_state)) option" where
  "generate_irreducible_X g ux uy s = generate_irreducible_X_with is_irreducible g s"

definition keygen ::
  "GiophantusParams \<Rightarrow> rng_state
     \<Rightarrow> (error + ((Polynomial \<times> Polynomial \<times> Polynomial) \<times> rng_state)) option" where
  "keygen g s =
     (case random_polynomial (n g - 1) (l g) s of
        Inl err \<Rightarrow> Some (Inl err)
      | Inr (ux, s1) \<Rightarrow>
          (case random_polynomial (n g - 1) (l g) s1 of
             Inl err \<Rightarrow> Some (Inl err)
           | Inr (uy, s2) \<Rightarrow>
               (case generate_irreducible_X g ux uy s2 of
                  None \<Rightarrow> None
                | Some (Inl err) \<Rightarrow> Some (Inl err)
                | Some (Inr (X, s3)) \<Rightarrow> Some (Inr ((ux, uy, X), s3)))))"

text \<open>\<open>keygen\<close> with the test of the retry loop as a parameter.\<close>

definition keygen_with ::
  "(Polynomial \<Rightarrow> bool) \<Rightarrow> GiophantusParams \<Rightarrow> rng_state
     \<Rightarrow> (error + ((Polynomial \<times> Polynomial \<times> Polynomial) \<times> rng_state)) option" where
  "keygen_with valid g s =
     (case random_polynomial (n g - 1) (l g) s of
        Inl err \<Rightarrow> Some (Inl err)
      | Inr (ux, s1) \<Rightarrow>
          (case random_polynomial (n g - 1) (l g) s1 of
             Inl err \<Rightarrow> Some (Inl err)
           | Inr (uy, s2) \<Rightarrow>
               (case generate_irreducible_X_with valid g s2 of
                  None \<Rightarrow> None
                | Some (Inl err) \<Rightarrow> Some (Inl err)
                | Some (Inr (X, s3)) \<Rightarrow> Some (Inr ((ux, uy, X), s3)))))"

text \<open>
  \<open>encrypt\<close> samples with the bounds of its argument \<open>params\<close> and computes with the
  ambient \<open>q\<close> and \<open>n\<close>.
\<close>

definition encrypt ::
  "GiophantusParams \<Rightarrow> Polynomial \<Rightarrow> Polynomial \<Rightarrow> GiophantusParams \<Rightarrow> rng_state
     \<Rightarrow> error + (Polynomial \<times> rng_state)" where
  "encrypt g message public_key params s =
     (case random_polynomial (dr params) (q params - 1) s of
        Inl err \<Rightarrow> Inl err
      | Inr (r, s1) \<Rightarrow>
     (case random_polynomial (dX params + dr params) (l params - 1) s1 of
        Inl err \<Rightarrow> Inl err
      | Inr (e, s2) \<Rightarrow>
     (case operator_mul g public_key r of
        Inl err \<Rightarrow> Inl err
      | Inr xr \<Rightarrow>
     (case mod_tn g xr of
        Inl err \<Rightarrow> Inl err
      | Inr xr_red \<Rightarrow>
     (case operator_add g message xr_red of
        Inl err \<Rightarrow> Inl err
      | Inr sum1 \<Rightarrow>
     (case operator_add g sum1 e of
        Inl err \<Rightarrow> Inl err
      | Inr ciphertext \<Rightarrow>
     (case mod_tn g ciphertext of
        Inl err \<Rightarrow> Inl err
      | Inr reduced \<Rightarrow> Inr (reduced, s2))))))))"

definition decrypt :: "GiophantusParams \<Rightarrow> Polynomial \<Rightarrow> Polynomial \<Rightarrow> Polynomial \<Rightarrow> error + Polynomial" where
  "decrypt g ciphertext ux uy =
     (if coeffs ciphertext \<noteq> [] \<and> l g = 0 then Inl DivisionByZero
      else Inr (Polynomial (map (\<lambda>c. mod_fn c (l g)) (coeffs ciphertext))))"

subsection \<open>The object-oriented variant (\<open>main.cpp\<close>)\<close>

definition FieldArithmetic_mod :: "int \<Rightarrow> int \<Rightarrow> int" where
  "FieldArithmetic_mod a m = wrap ((a smod m) + m) smod m"

definition FieldArithmetic_add :: "int \<Rightarrow> int \<Rightarrow> int \<Rightarrow> int" where
  "FieldArithmetic_add a b m = FieldArithmetic_mod (wrap (a + b)) m"

definition FieldArithmetic_mul :: "int \<Rightarrow> int \<Rightarrow> int \<Rightarrow> int" where
  "FieldArithmetic_mul a b m = FieldArithmetic_mod (wrap (a * b)) m"

text \<open>\<open>MODULO\<close> is not zero, so the sum cannot fail.\<close>

definition oop_operator_add :: "Polynomial \<Rightarrow> Polynomial \<Rightarrow> Polynomial" where
  "oop_operator_add this other =
     (let max_size' = max (length (coeffs this)) (length (coeffs other)) in
      Polynomial (map (\<lambda>i.
        FieldArithmetic_add (if i < length (coeffs this) then coeffs this ! i else 0)
                            (if i < length (coeffs other) then coeffs other ! i else 0) MODULO)
        [0..<max_size']))"

definition oop_operator_mul :: "Polynomial \<Rightarrow> Polynomial \<Rightarrow> error + Polynomial" where
  "oop_operator_mul this other =
     (let sz = (length (coeffs this) + length (coeffs other) + 2 ^ 64 - 1) mod 2 ^ 64 in
      if max_size < sz then Inl LengthError
      else Inr (Polynomial
        (fold (\<lambda>i. fold (\<lambda>j result.
                 result[i + j := FieldArithmetic_add (result ! (i + j))
                    (FieldArithmetic_mul (coeffs this ! i) (coeffs other ! j) MODULO) MODULO])
               [0..<length (coeffs other)])
           [0..<length (coeffs this)] (replicate sz 0))))"

text \<open>\<open>RandomPolynomialGenerator::generate\<close> draws from \<open>[0, max_coeff]\<close>.\<close>

definition RandomPolynomialGenerator_generate ::
  "int \<Rightarrow> int \<Rightarrow> rng_state \<Rightarrow> error + (Polynomial \<times> rng_state)" where
  "RandomPolynomialGenerator_generate deg max_coeff s =
     (if max_coeff < 0 then Inl EmptyRange
      else if max_size < to_size_t (deg + 1) then Inl LengthError
      else (let (cs, s') = fill (to_size_t (deg + 1)) 0 max_coeff s
            in Inr (Polynomial cs, s')))"

datatype GiophantusKey = GiophantusKey Polynomial Polynomial Polynomial

text \<open>
  \<open>GiophantusKeyGen::generate\<close> builds its own generator; \<open>s\<close> is the state that
  generator starts in.
\<close>

definition GiophantusKeyGen_generate :: "GiophantusParams_oop \<Rightarrow> rng_state \<Rightarrow> error + GiophantusKey" where
  "GiophantusKeyGen_generate params s =
     (case RandomPolynomialGenerator_generate (GiophantusParams_oop.degree params) (noise_bound params) s of
        Inl err \<Rightarrow> Inl err
      | Inr (ux, s1) \<Rightarrow>
     (case RandomPolynomialGenerator_generate (GiophantusParams_oop.degree params) (noise_bound params) s1 of
        Inl err \<Rightarrow> Inl err
      | Inr (uy, s2) \<Rightarrow>
     (case RandomPolynomialGenerator_generate (GiophantusParams_oop.degree params) (modulo params - 1) s2 of
        Inl err \<Rightarrow> Inl err
      | Inr (X, s3) \<Rightarrow> Inr (GiophantusKey ux uy X))))"

definition oop_param128 :: GiophantusParams_oop where
  "oop_param128 = \<lparr>modulo = 17, degree = 11, noise_bound = 4, block_size = 32\<rparr>"

definition oop_param192 :: GiophantusParams_oop where
  "oop_param192 = \<lparr>modulo = 23, degree = 19, noise_bound = 6, block_size = 48\<rparr>"

definition oop_param256 :: GiophantusParams_oop where
  "oop_param256 = \<lparr>modulo = 29, degree = 23, noise_bound = 8, block_size = 64\<rparr>"

subsection \<open>Notions used to state the properties\<close>

text \<open>The integers that an \<open>int\<close> holds.\<close>

definition in_int :: "int \<Rightarrow> bool" where
  "in_int k = (- (2 ^ 31) \<le> k \<and> k < 2 ^ 31)"

text \<open>The coefficient at index \<open>i\<close>, zero beyond the end (as \<open>operator+\<close> reads it).\<close>

definition coeff :: "Polynomial \<Rightarrow> nat \<Rightarrow> int" where
  "coeff p i = (if i < length (coeffs p) then coeffs p ! i else 0)"

text \<open>The convolution sum for index \<open>k\<close>: all products \<open>A[i] * B[j]\<close> with \<open>i + j = k\<close>.\<close>

definition convolution :: "Polynomial \<Rightarrow> Polynomial \<Rightarrow> nat \<Rightarrow> int" where
  "convolution A B k =
     sum_list (map (\<lambda>i. if i \<le> k \<and> k - i < length (coeffs B)
                          then coeffs A ! i * coeffs B ! (k - i) else 0)
               [0..<length (coeffs A)])"

text \<open>A randomness source whose raw values are all \<open>v\<close>, after \<open>k\<close> draws.\<close>

definition constant_source :: "nat \<Rightarrow> nat \<Rightarrow> rng_state" where
  "constant_source v k = \<lparr>raw = (\<lambda>_. v), pos = k\<rparr>"



section \<open>Basic facts\<close>

subsection \<open>Field arithmetic with a positive modulus\<close>

lemma wrap_id: "in_int k \<Longrightarrow> wrap k = k"
  by (simp add: wrap_def in_int_def)

lemma smod_pos_cases:
  assumes "0 < p"
  shows "(a::int) smod p = a mod p \<or> a smod p = a mod p - p"
  using signed_modulo_int_eq_modulo_int [of a p] by (auto simp: of_bool_def split: if_splits)

lemma mod_fn_pos:
  assumes "0 < p" and "p \<le> 2 ^ 30"
  shows "mod_fn a p = a mod p"
proof -
  note r = smod_pos_cases [OF assms(1), of a]
  have lo: "0 \<le> a smod p + p" and hi: "a smod p + p < 2 * p"
    using r assms(1) pos_mod_sign [OF assms(1), of a] pos_mod_bound [OF assms(1), of a] by auto
  have "in_int (a smod p + p)"
    using lo hi assms(2) by (simp add: in_int_def)
  then have "wrap (a smod p + p) = a smod p + p"
    by (rule wrap_id)
  moreover have "(a smod p + p) smod p = (a smod p + p) mod p"
    using lo assms(1) by (simp add: smod_mod_positive)
  moreover have "(a smod p + p) mod p = a mod p"
    using r by auto
  ultimately show ?thesis
    by (simp add: mod_fn_def)
qed

lemma mod_fn_range:
  assumes "0 < p" and "p \<le> 2 ^ 30"
  shows "0 \<le> mod_fn a p \<and> mod_fn a p < p"
  using assms by (simp add: mod_fn_pos)

lemma add_range:
  assumes "0 < p" and "p \<le> 2 ^ 30"
  shows "0 \<le> add a b p \<and> add a b p < p"
  unfolding add_def using assms by (rule mod_fn_range)

lemma add_pos:
  assumes "0 < p" and "p \<le> 2 ^ 30" and "in_int (a + b)"
  shows "add a b p = (a + b) mod p"
  using assms by (simp add: add_def mod_fn_pos wrap_id)

lemma mul_pos:
  assumes "0 < p" and "p \<le> 2 ^ 30" and "in_int (a * b)"
  shows "mul a b p = (a * b) mod p"
  using assms by (simp add: mul_def mod_fn_pos wrap_id)

lemma in_int_small: "0 \<le> a \<Longrightarrow> a < p \<Longrightarrow> 0 \<le> b \<Longrightarrow> b < p \<Longrightarrow> p \<le> 2 ^ 30 \<Longrightarrow> in_int (a + b)"
  by (simp add: in_int_def)

lemma add_small:
  assumes "0 < p" and "p \<le> 2 ^ 30" and "0 \<le> a" and "a < p" and "0 \<le> b" and "b < p"
  shows "add a b p = (a + b) mod p"
  using assms by (intro add_pos in_int_small [of a p b]) simp_all

lemma add_mul_pos:
  assumes "0 < p" and "p \<le> 2 ^ 30" and "0 \<le> r" and "r < p" and "in_int (a * b)"
  shows "add r (mul a b p) p = (r + a * b) mod p"
proof -
  have m: "mul a b p = (a * b) mod p"
    using assms(1,2,5) by (rule mul_pos)
  have "add r ((a * b) mod p) p = (r + (a * b) mod p) mod p"
    using assms(1-4) by (intro add_small) simp_all
  then show ?thesis
    by (simp add: m mod_add_right_eq)
qed

lemma add_zero_field:
  assumes "0 < p" and "p \<le> 2 ^ 30" and "0 \<le> x" and "x < p"
  shows "add 0 x p = x"
  using add_small [OF assms(1,2) _ _ assms(3,4), of 0] assms by simp

lemma FieldArithmetic_mod_eq: "FieldArithmetic_mod = mod_fn"
  by (intro ext) (simp add: FieldArithmetic_mod_def mod_fn_def)

lemma FieldArithmetic_add_eq: "FieldArithmetic_add = add"
  by (intro ext) (simp add: FieldArithmetic_add_def add_def FieldArithmetic_mod_eq)

lemma FieldArithmetic_mul_eq: "FieldArithmetic_mul = mul"
  by (intro ext) (simp add: FieldArithmetic_mul_def mul_def FieldArithmetic_mod_eq)

lemma MODULO_bounds: "0 < MODULO" "MODULO \<le> 2 ^ 30"
  by (simp_all add: MODULO_def)

subsection \<open>Sizes and conversions\<close>

lemma to_size_t_nat: "0 \<le> k \<Longrightarrow> k < 2 ^ 64 \<Longrightarrow> to_size_t k = nat k"
  by (simp add: to_size_t_def)

lemma to_size_t_succ: "- 1 \<le> d \<Longrightarrow> d < 2 ^ 31 - 1 \<Longrightarrow> to_size_t (d + 1) = nat (d + 1)"
  by (intro to_size_t_nat) simp_all

lemma to_size_t_neg:
  assumes "k < 0" and "- (2 ^ 63) \<le> k"
  shows "max_size < to_size_t k"
proof -
  have "(k + 2 ^ 64) mod 2 ^ 64 = k + 2 ^ 64"
    using assms by (intro mod_pos_pos_trivial) simp_all
  then have "k mod 2 ^ 64 = k + 2 ^ 64"
    by simp
  then show ?thesis
    using assms by (simp add: to_size_t_def max_size_def)
qed

lemma size_t_pred:
  assumes "0 < k" and "k \<le> 2 ^ 64"
  shows "(k + 2 ^ 64 - 1) mod 2 ^ 64 = k - (1::nat)"
proof -
  have "k + 2 ^ 64 - 1 = (k - 1) + (2 ^ 64 :: nat)"
    using assms by simp
  then have "(k + 2 ^ 64 - 1) mod 2 ^ 64 = (k - 1) mod (2 ^ 64 :: nat)"
    by (simp only: mod_add_self2)
  also have "\<dots> = k - 1"
    using assms by (intro mod_less) simp
  finally show ?thesis .
qed

lemma degree_length:
  assumes "length cs \<le> 2 ^ 31"
  shows "degree (Polynomial cs) = int (length cs) - 1"
proof (cases "length cs = 0")
  case True
  then show ?thesis by (simp add: degree_def to_int_def)
next
  case False
  then have pos: "0 < length cs" by simp
  have "length cs \<le> (2 ^ 64 :: nat)"
    using assms by simp
  with pos have "(length cs + 2 ^ 64 - 1) mod 2 ^ 64 = length cs - 1"
    by (rule size_t_pred)
  moreover have "int (length cs - 1) mod 2 ^ 32 = int (length cs - 1)"
    using assms pos by (intro mod_pos_pos_trivial) simp_all
  moreover have "int (length cs - 1) < 2 ^ 31"
    using assms pos by simp
  moreover have "int (length cs - 1) = int (length cs) - 1"
    using pos by (cases cs) simp_all
  ultimately show ?thesis
    by (simp add: degree_def to_int_def Let_def)
qed

lemma degree_empty: "degree (Polynomial []) = - 1"
  by (simp add: degree_length)

subsection \<open>Trimming\<close>

lemma trim_coeffs_Nil: "trim_coeffs [] = []"
  by (subst trim_coeffs.simps) simp


lemma trim_coeffs_snoc_zero: "trim_coeffs (cs @ [0]) = trim_coeffs cs"
  by (subst trim_coeffs.simps) simp

lemma trim_coeffs_append_zeros: "trim_coeffs (cs @ replicate k 0) = trim_coeffs cs"
proof (induction k)
  case 0
  then show ?case by simp
next
  case (Suc k)
  have "cs @ replicate (Suc k) 0 = (cs @ replicate k 0) @ [0]"
    by (simp add: replicate_append_same)
  then have "trim_coeffs (cs @ replicate (Suc k) 0) = trim_coeffs (cs @ replicate k 0)"
    by (simp only: trim_coeffs_snoc_zero)
  with Suc show ?case by simp
qed

lemma trim_coeffs_zeros: "trim_coeffs (replicate k 0) = []"
  using trim_coeffs_append_zeros [of "[]" k] by (simp add: trim_coeffs_Nil)


subsection \<open>Coefficients\<close>



subsection \<open>Sampling\<close>

lemma uniform_int_range:
  assumes "a \<le> b"
  shows "a \<le> fst (uniform_int a b s) \<and> fst (uniform_int a b s) \<le> b"
proof -
  have "0 < nat (b - a + 1)"
    using assms by simp
  then have "raw s (pos s) mod nat (b - a + 1) < nat (b - a + 1)"
    by (rule mod_less_divisor)
  then have "int (raw s (pos s) mod nat (b - a + 1)) < b - a + 1"
    by linarith
  then show ?thesis
    by (simp add: uniform_int_def)
qed

lemma fill_length: "length (fst (fill k a b s)) = k"
  by (induction k arbitrary: s) (simp_all add: Let_def case_prod_beta)



lemma fill_range: "a \<le> b \<Longrightarrow> c \<in> set (fst (fill k a b s)) \<Longrightarrow> a \<le> c \<and> c \<le> b"
proof (induction k arbitrary: s)
  case 0
  then show ?case by simp
next
  case (Suc k)
  from Suc.prems(2) have "c = fst (uniform_int a b s) \<or> c \<in> set (fst (fill k a b (snd (uniform_int a b s))))"
    by (simp add: Let_def case_prod_beta)
  then show ?case
    using Suc.IH [OF Suc.prems(1)] uniform_int_range [OF Suc.prems(1)] by blast
qed

lemma random_polynomial_ok:
  assumes "0 < b" and "- 1 \<le> d" and "d < 2 ^ 31 - 1"
  shows "random_polynomial d b s =
           Inr (Polynomial (fst (fill (nat (d + 1)) 0 (b - 1) s)), snd (fill (nat (d + 1)) 0 (b - 1) s))"
proof -
  have "to_size_t (d + 1) = nat (d + 1)"
    using assms by (simp add: to_size_t_succ)
  moreover have "nat (d + 1) \<le> max_size"
    using assms by (simp add: max_size_def)
  ultimately show ?thesis
    using assms by (simp add: random_polynomial_def case_prod_beta)
qed

lemma generate_ok:
  assumes "0 \<le> b" and "- 1 \<le> d" and "d < 2 ^ 31 - 1"
  shows "RandomPolynomialGenerator_generate d b s =
           Inr (Polynomial (fst (fill (nat (d + 1)) 0 b s)), snd (fill (nat (d + 1)) 0 b s))"
proof -
  have "to_size_t (d + 1) = nat (d + 1)"
    using assms by (simp add: to_size_t_succ)
  moreover have "nat (d + 1) \<le> max_size"
    using assms by (simp add: max_size_def)
  ultimately show ?thesis
    using assms by (simp add: RandomPolynomialGenerator_generate_def case_prod_beta)
qed

lemma sample_facts:
  assumes "0 \<le> d" and "d < 2 ^ 31 - 1" and "0 < b"
  shows "\<exists>p s'. random_polynomial d b s = Inr (p, s') \<and> length (coeffs p) = nat d + 1
            \<and> (\<forall>c \<in> set (coeffs p). 0 \<le> c \<and> c < b)"
proof -
  define k where "k = nat (d + 1)"
  have k: "k = nat d + 1"
    using assms by (simp add: k_def)
  have "random_polynomial d b s = Inr (Polynomial (fst (fill k 0 (b - 1) s)), snd (fill k 0 (b - 1) s))"
    unfolding k_def using assms by (intro random_polynomial_ok) simp_all
  moreover have "length (fst (fill k 0 (b - 1) s)) = nat d + 1"
    by (simp only: fill_length k)
  moreover have "\<forall>c \<in> set (fst (fill k 0 (b - 1) s)). 0 \<le> c \<and> c < b"
    using fill_range [of 0 "b - 1" _ k s] assms by fastforce
  ultimately show ?thesis
    by (metis Polynomial.sel)
qed

lemma random_polynomial_Inr:
  assumes "random_polynomial d b s = Inr (p, s')" and "- (2 ^ 31) \<le> d + 1" and "d + 1 < 2 ^ 31"
  shows "0 < b \<and> - 1 \<le> d \<and> length (coeffs p) = nat (d + 1) \<and> (\<forall>c \<in> set (coeffs p). 0 \<le> c \<and> c < b)"
proof -
  from assms(1) have b: "0 < b" and sz: "to_size_t (d + 1) \<le> max_size"
    by (auto simp: random_polynomial_def split: if_splits)
  have d: "- 1 \<le> d"
  proof (rule ccontr)
    assume "\<not> - 1 \<le> d"
    then have "max_size < to_size_t (d + 1)"
      using assms(2) by (intro to_size_t_neg) simp_all
    with sz show False by simp
  qed
  have "d < 2 ^ 31 - 1"
    using assms(3) by simp
  from random_polynomial_ok [OF b d this, of s] assms(1)
  have p: "p = Polynomial (fst (fill (nat (d + 1)) 0 (b - 1) s))"
    by simp
  have "\<forall>c \<in> set (fst (fill (nat (d + 1)) 0 (b - 1) s)). 0 \<le> c \<and> c < b"
    using fill_range [of 0 "b - 1" _ "nat (d + 1)" s] b by fastforce
  with b d p show ?thesis
    by (simp add: fill_length)
qed

lemma generate_Inr:
  assumes "RandomPolynomialGenerator_generate d b s = Inr (p, s')" and "- (2 ^ 31) \<le> d + 1" and "d + 1 < 2 ^ 31"
  shows "0 \<le> b \<and> - 1 \<le> d \<and> length (coeffs p) = nat (d + 1) \<and> (\<forall>c \<in> set (coeffs p). 0 \<le> c \<and> c \<le> b)"
proof -
  from assms(1) have b: "0 \<le> b" and sz: "to_size_t (d + 1) \<le> max_size"
    by (auto simp: RandomPolynomialGenerator_generate_def split: if_splits)
  have d: "- 1 \<le> d"
  proof (rule ccontr)
    assume "\<not> - 1 \<le> d"
    then have "max_size < to_size_t (d + 1)"
      using assms(2) by (intro to_size_t_neg) simp_all
    with sz show False by simp
  qed
  have "d < 2 ^ 31 - 1"
    using assms(3) by simp
  from generate_ok [OF b d this, of s] assms(1)
  have p: "p = Polynomial (fst (fill (nat (d + 1)) 0 b s))"
    by simp
  have "\<forall>c \<in> set (fst (fill (nat (d + 1)) 0 b s)). 0 \<le> c \<and> c \<le> b"
    using fill_range [of 0 b _ "nat (d + 1)" s] b by fastforce
  with b d p show ?thesis
    by (simp add: fill_length)
qed



subsection \<open>Sampling from the sources used in the examples\<close>

lemma fill_numeral:
  "fill (numeral v) a b s =
     (let (c, s') = uniform_int a b s; (cs, s'') = fill (pred_numeral v) a b s' in (c # cs, s''))"
  by (simp add: numeral_eq_Suc)

lemma uniform_int_constant_source:
  "uniform_int a b (constant_source v k) = (a + int (v mod nat (b - a + 1)), constant_source v (k + 1))"
  by (simp add: uniform_int_def constant_source_def)



subsection \<open>The retry loop\<close>

lemma loop_accepts:
  "random_polynomial (dX g) (q g - 1) s = Inr (X, s') \<Longrightarrow> valid X
     \<Longrightarrow> generate_irreducible_X_with valid g s = Some (Inr (X, s'))"
  by (subst generate_irreducible_X_with.simps) simp



subsection \<open>Key generation\<close>

lemma is_irreducible_holds: "is_irreducible X"
  by (simp add: is_irreducible_def)

lemma keygen_eq: "keygen g s = keygen_with is_irreducible g s"
  unfolding keygen_def keygen_with_def generate_irreducible_X_def ..

lemma keygen_with_result:
  assumes "keygen_with valid g s = Some (Inr ((ux, uy, X), s'))"
  shows "\<exists>s1 s2. random_polynomial (n g - 1) (l g) s = Inr (ux, s1)
           \<and> random_polynomial (n g - 1) (l g) s1 = Inr (uy, s2)
           \<and> generate_irreducible_X_with valid g s2 = Some (Inr (X, s'))"
  using assms by (auto simp: keygen_with_def split: sum.splits prod.splits option.splits)

lemma generate_result:
  assumes "GiophantusKeyGen_generate params s = Inr (GiophantusKey ux uy X)"
  shows "\<exists>s1 s2 s3.
      RandomPolynomialGenerator_generate (GiophantusParams_oop.degree params) (noise_bound params) s = Inr (ux, s1)
    \<and> RandomPolynomialGenerator_generate (GiophantusParams_oop.degree params) (noise_bound params) s1 = Inr (uy, s2)
    \<and> RandomPolynomialGenerator_generate (GiophantusParams_oop.degree params) (modulo params - 1) s2 = Inr (X, s3)"
  using assms by (auto simp: GiophantusKeyGen_generate_def split: sum.splits prod.splits)

subsection \<open>The keys of the examples\<close>

lemma param128_simps:
  "q param128 = 17" "n param128 = 11" "l param128 = 4" "dX param128 = 2" "dr param128 = 2"
  "mlen param128 = 32"
  by (simp_all add: param128_def)

lemma oop_param128_simps:
  "modulo oop_param128 = 17" "GiophantusParams_oop.degree oop_param128 = 11"
  "noise_bound oop_param128 = 4" "block_size oop_param128 = 32"
  by (simp_all add: oop_param128_def)

lemma keygen_with_constant_source:
  assumes "valid (Polynomial [5, 5, 5])"
  shows "keygen_with valid param128 (constant_source 5 0) =
     Some (Inr ((Polynomial [1, 1, 1, 1, 1, 1, 1, 1, 1, 1, 1], Polynomial [1, 1, 1, 1, 1, 1, 1, 1, 1, 1, 1],
                 Polynomial [5, 5, 5]), constant_source 5 25))"
proof -
  have ux: "random_polynomial (n param128 - 1) (l param128) (constant_source 5 0)
      = Inr (Polynomial [1, 1, 1, 1, 1, 1, 1, 1, 1, 1, 1], constant_source 5 11)"
    by (simp add: param128_simps random_polynomial_ok fill_numeral uniform_int_constant_source)
      (simp_all add: eval_nat_numeral)?
  have uy: "random_polynomial (n param128 - 1) (l param128) (constant_source 5 11)
      = Inr (Polynomial [1, 1, 1, 1, 1, 1, 1, 1, 1, 1, 1], constant_source 5 22)"
    by (simp add: param128_simps random_polynomial_ok fill_numeral uniform_int_constant_source)
      (simp_all add: eval_nat_numeral)?
  have X: "random_polynomial (dX param128) (q param128 - 1) (constant_source 5 22)
      = Inr (Polynomial [5, 5, 5], constant_source 5 25)"
    by (simp add: param128_simps random_polynomial_ok fill_numeral uniform_int_constant_source)
      (simp_all add: eval_nat_numeral)?
  have "generate_irreducible_X_with valid param128 (constant_source 5 22)
      = Some (Inr (Polynomial [5, 5, 5], constant_source 5 25))"
    using X assms by (rule loop_accepts)
  then show ?thesis
    by (simp add: keygen_with_def ux uy)
qed

lemma keygen_constant_source:
  "keygen param128 (constant_source 5 0) =
     Some (Inr ((Polynomial [1, 1, 1, 1, 1, 1, 1, 1, 1, 1, 1], Polynomial [1, 1, 1, 1, 1, 1, 1, 1, 1, 1, 1],
                 Polynomial [5, 5, 5]), constant_source 5 25))"
  unfolding keygen_eq by (rule keygen_with_constant_source) (rule is_irreducible_holds)

lemma generate_constant_source:
  "GiophantusKeyGen_generate oop_param128 (constant_source 4 0) =
     Inr (GiophantusKey (Polynomial [4, 4, 4, 4, 4, 4, 4, 4, 4, 4, 4, 4])
            (Polynomial [4, 4, 4, 4, 4, 4, 4, 4, 4, 4, 4, 4])
            (Polynomial [4, 4, 4, 4, 4, 4, 4, 4, 4, 4, 4, 4]))"
  apply (simp add: GiophantusKeyGen_generate_def oop_param128_simps generate_ok fill_numeral
      uniform_int_constant_source)
  done



section \<open>Polynomial arithmetic\<close>

subsection \<open>Addition\<close>

lemma operator_add_total:
  assumes "q g \<noteq> 0"
  shows "\<exists>S. operator_add g A B = Inr S
           \<and> length (coeffs S) = max (length (coeffs A)) (length (coeffs B))"
  using assms by (simp add: operator_add_def)

lemma coeff_range:
  assumes "0 < p" and "\<forall>x \<in> set (coeffs A). 0 \<le> x \<and> x < p"
  shows "0 \<le> coeff A i \<and> coeff A i < p"
  using assms by (simp add: coeff_def)

lemma operator_add_pos:
  assumes "0 < q g" and "q g \<le> 2 ^ 30" and "\<forall>i. in_int (coeff A i + coeff B i)"
  shows "operator_add g A B = Inr (Polynomial (map (\<lambda>i. (coeff A i + coeff B i) mod q g)
           [0..<max (length (coeffs A)) (length (coeffs B))]))"
proof -
  have "add (coeff A i) (coeff B i) (q g) = (coeff A i + coeff B i) mod q g" for i
    using assms by (intro add_pos) simp_all
  then show ?thesis
    using assms(1) by (simp add: operator_add_def coeff_def)
qed

lemma operator_add_field:
  assumes "0 < q g" and "q g \<le> 2 ^ 30"
    and "\<forall>x \<in> set (coeffs A). 0 \<le> x \<and> x < q g" and "\<forall>x \<in> set (coeffs B). 0 \<le> x \<and> x < q g"
  shows "operator_add g A B = Inr (Polynomial (map (\<lambda>i. (coeff A i + coeff B i) mod q g)
           [0..<max (length (coeffs A)) (length (coeffs B))]))"
proof -
  have "in_int (coeff A i + coeff B i)" for i
    using coeff_range [OF assms(1,3), of i] coeff_range [OF assms(1,4), of i] assms(2)
    by (intro in_int_small [of _ "q g"]) simp_all
  then show ?thesis
    using assms(1,2) by (intro operator_add_pos) simp_all
qed

lemma oop_operator_add_eq:
  assumes "\<forall>i. in_int (coeff A i + coeff B i)"
  shows "oop_operator_add A B = Polynomial (map (\<lambda>i. (coeff A i + coeff B i) mod MODULO)
           [0..<max (length (coeffs A)) (length (coeffs B))])"
proof -
  have "add (coeff A i) (coeff B i) MODULO = (coeff A i + coeff B i) mod MODULO" for i
    using assms MODULO_bounds by (intro add_pos) simp_all
  then show ?thesis
    by (simp add: oop_operator_add_def coeff_def FieldArithmetic_add_eq)
qed

lemma zero_add:
  assumes "0 < q g" and "q g \<le> 2 ^ 30" and "\<forall>x \<in> set (coeffs A). 0 \<le> x \<and> x < q g"
  shows "operator_add g (Polynomial []) A = Inr A"
proof -
  have "(coeff (Polynomial []) i + coeff A i) mod q g = coeffs A ! i" if "i < length (coeffs A)" for i
    using that assms(3) by (simp add: coeff_def nth_mem)
  then have "map (\<lambda>i. (coeff (Polynomial []) i + coeff A i) mod q g) [0..<length (coeffs A)] = coeffs A"
    by (intro nth_equalityI) simp_all
  moreover have "operator_add g (Polynomial []) A
      = Inr (Polynomial (map (\<lambda>i. (coeff (Polynomial []) i + coeff A i) mod q g)
           [0..<max (length (coeffs (Polynomial []))) (length (coeffs A))]))"
    using assms by (intro operator_add_field) simp_all
  ultimately show ?thesis
    by simp
qed

subsection \<open>Reduction modulo \<open>t^n - 1\<close>\<close>

lemma fold_update_length:
  "length (fold (\<lambda>i r. r[f i := h i r]) xs r0) = length r0"
  by (induction xs arbitrary: r0) simp_all

lemma mod_tn_Inr_length:
  "mod_tn g A = Inr R \<Longrightarrow> length (coeffs R) = to_size_t (n g)"
  by (auto simp: mod_tn_def Let_def fold_update_length split: if_splits)

lemma mod_tn_ok:
  assumes "1 \<le> n g" and "n g < 2 ^ 31" and "q g \<noteq> 0"
  shows "mod_tn g A = Inr (Polynomial
           (fold (\<lambda>i r. r[i mod nat (n g) := add (r ! (i mod nat (n g))) (coeffs A ! i) (q g)])
              [0..<length (coeffs A)] (replicate (nat (n g)) 0)))"
proof -
  have "to_size_t (n g) = nat (n g)"
    using assms by (intro to_size_t_nat) simp_all
  moreover have "nat (n g) \<le> max_size"
    using assms by (simp add: max_size_def nat_le_iff)
  moreover have "nat (n g) \<noteq> 0"
    using assms by simp
  ultimately show ?thesis
    using assms by (simp add: mod_tn_def Let_def)
qed

lemma mod_tn_total:
  assumes "1 \<le> n g" and "n g < 2 ^ 31" and "q g \<noteq> 0"
  shows "\<exists>R. mod_tn g A = Inr R \<and> length (coeffs R) = nat (n g)"
proof -
  from mod_tn_ok [OF assms, of A] obtain R where R: "mod_tn g A = Inr R"
    by blast
  have "to_size_t (n g) = nat (n g)"
    using assms by (intro to_size_t_nat) simp_all
  with mod_tn_Inr_length [OF R] R show ?thesis
    by simp
qed

lemma fold_reduce_range:
  assumes "0 < p" and "p \<le> 2 ^ 30" and "0 < k" and "length r0 = k"
    and "\<forall>x \<in> set r0. 0 \<le> x \<and> x < p"
  shows "\<forall>x \<in> set (fold (\<lambda>i r. r[i mod k := add (r ! (i mod k)) (cs ! i) p]) xs r0). 0 \<le> x \<and> x < p"
  using assms(4,5)
proof (induction xs arbitrary: r0)
  case Nil
  then show ?case by simp
next
  case (Cons i xs)
  let ?r = "r0[i mod k := add (r0 ! (i mod k)) (cs ! i) p]"
  have len: "length ?r = k"
    using Cons.prems by simp
  have rng: "\<forall>x \<in> set ?r. 0 \<le> x \<and> x < p"
  proof
    fix x assume "x \<in> set ?r"
    then have "x = add (r0 ! (i mod k)) (cs ! i) p \<or> x \<in> set r0"
      using set_update_subset_insert [of r0 "i mod k"] by auto
    then show "0 \<le> x \<and> x < p"
      using Cons.prems(2) add_range [OF assms(1,2)] by auto
  qed
  from Cons.IH [OF len rng] show ?case
    by simp
qed

lemma mod_tn_range:
  assumes "1 \<le> n g" and "n g < 2 ^ 31" and "0 < q g" and "q g \<le> 2 ^ 30" and "mod_tn g A = Inr R"
  shows "\<forall>x \<in> set (coeffs R). 0 \<le> x \<and> x < q g"
proof -
  have "q g \<noteq> 0" using assms(3) by simp
  from mod_tn_ok [OF assms(1,2) this, of A] assms(5)
  have R: "coeffs R = fold (\<lambda>i r. r[i mod nat (n g) := add (r ! (i mod nat (n g))) (coeffs A ! i) (q g)])
              [0..<length (coeffs A)] (replicate (nat (n g)) 0)"
    by auto
  have "0 < nat (n g)" using assms(1) by simp
  from fold_reduce_range [OF assms(3,4) this, of "replicate (nat (n g)) 0"] assms(3)
  show ?thesis unfolding R by simp
qed

lemma fold_reduce_short:
  assumes "0 < p" and "p \<le> 2 ^ 30" and "length cs \<le> k"
    and "\<forall>x \<in> set cs. 0 \<le> x \<and> x < p" and "m \<le> length cs"
  shows "fold (\<lambda>i r. r[i mod k := add (r ! (i mod k)) (cs ! i) p]) [0..<m] (replicate k 0)
           = take m cs @ replicate (k - m) 0"
  using assms(5)
proof (induction m)
  case 0
  then show ?case by simp
next
  case (Suc m)
  have m: "m < length cs" "m < k"
    using Suc.prems assms(3) by simp_all
  then have mk: "m mod k = m"
    by simp
  have "0 \<le> cs ! m \<and> cs ! m < p"
    using assms(4) m(1) by (simp add: nth_mem)
  then have cm: "add 0 (cs ! m) p = cs ! m"
    using assms(1,2) by (intro add_zero_field) simp_all
  have km: "replicate (k - m) (0::int) = 0 # replicate (k - Suc m) 0"
    using m(2) by (metis Suc_diff_Suc replicate_Suc)
  have "fold (\<lambda>i r. r[i mod k := add (r ! (i mod k)) (cs ! i) p]) [0..<Suc m] (replicate k 0)
      = (take m cs @ replicate (k - m) 0)[m := add ((take m cs @ replicate (k - m) 0) ! m) (cs ! m) p]"
    using Suc by (simp add: mk)
  also have "\<dots> = take m cs @ (cs ! m) # replicate (k - Suc m) 0"
    using m by (simp add: km list_update_append nth_append cm)
  also have "\<dots> = take (Suc m) cs @ replicate (k - Suc m) 0"
    using m(1) by (simp add: take_Suc_conv_app_nth)
  finally show ?case .
qed

lemma mod_tn_short:
  assumes "1 \<le> n g" and "n g < 2 ^ 31" and "0 < q g" and "q g \<le> 2 ^ 30"
    and "length (coeffs A) \<le> nat (n g)" and "\<forall>x \<in> set (coeffs A). 0 \<le> x \<and> x < q g"
  shows "mod_tn g A = Inr (Polynomial (coeffs A @ replicate (nat (n g) - length (coeffs A)) 0))"
proof -
  have "q g \<noteq> 0" using assms(3) by simp
  from mod_tn_ok [OF assms(1,2) this] fold_reduce_short [OF assms(3,4,5,6) order_refl]
  show ?thesis by simp
qed





subsection \<open>Multiplication\<close>

lemma mul_row_length:
  "length (fold (\<lambda>j r. r[i + j := add (r ! (i + j)) (mul x (b ! j) p) p]) js r0) = length r0"
  by (induction js arbitrary: r0) simp_all

lemma mul_rows_length:
  "length (fold (\<lambda>i. fold (\<lambda>j r. r[i + j := add (r ! (i + j)) (mul (a ! i) (b ! j) p) p]) js) is r0)
     = length r0"
  by (induction "is" arbitrary: r0) (simp_all add: mul_row_length)

lemma update_range:
  assumes "\<forall>x \<in> set r0. 0 \<le> x \<and> x < (p::int)" and "0 \<le> v \<and> v < p"
  shows "\<forall>x \<in> set (r0[k := v]). 0 \<le> x \<and> x < p"
proof
  fix x assume "x \<in> set (r0[k := v])"
  then have "x = v \<or> x \<in> set r0"
    using set_update_subset_insert [of r0 k v] by auto
  then show "0 \<le> x \<and> x < p"
    using assms by auto
qed

lemma mul_row_range:
  assumes "0 < p" and "p \<le> 2 ^ 30"
  shows "\<forall>x \<in> set r0. 0 \<le> x \<and> x < p \<Longrightarrow>
         \<forall>x \<in> set (fold (\<lambda>j r. r[i + j := add (r ! (i + j)) (mul y (b ! j) p) p]) js r0). 0 \<le> x \<and> x < p"
proof (induction js arbitrary: r0)
  case Nil
  then show ?case by simp
next
  case (Cons j js)
  have "\<forall>x \<in> set (r0[i + j := add (r0 ! (i + j)) (mul y (b ! j) p) p]). 0 \<le> x \<and> x < p"
    using Cons.prems add_range [OF assms] by (rule update_range)
  from Cons.IH [OF this] show ?case
    by simp
qed

lemma mul_rows_range:
  assumes "0 < p" and "p \<le> 2 ^ 30"
  shows "\<forall>x \<in> set r0. 0 \<le> x \<and> x < p \<Longrightarrow>
         \<forall>x \<in> set (fold (\<lambda>i. fold (\<lambda>j r. r[i + j := add (r ! (i + j)) (mul (a ! i) (b ! j) p) p]) js) is r0).
            0 \<le> x \<and> x < p"
proof (induction "is" arbitrary: r0)
  case Nil
  then show ?case by simp
next
  case (Cons i "is")
  from Cons.IH [OF mul_row_range [OF assms Cons.prems]] show ?case
    by simp
qed

lemma mul_row_nth:
  assumes "0 < p" and "p \<le> 2 ^ 30" and "\<forall>x \<in> set r0. 0 \<le> x \<and> x < p"
    and "\<forall>j < length b. in_int (x * b ! j)"
  shows "m \<le> length b \<Longrightarrow> i + m \<le> length r0 \<Longrightarrow> k < length r0 \<Longrightarrow>
         fold (\<lambda>j r. r[i + j := add (r ! (i + j)) (mul x (b ! j) p) p]) [0..<m] r0 ! k
           = (if i \<le> k \<and> k - i < m then (r0 ! k + x * b ! (k - i)) mod p else r0 ! k)"
proof (induction m arbitrary: k)
  case 0
  then show ?case by simp
next
  case (Suc m)
  let ?row = "\<lambda>m. fold (\<lambda>j r. r[i + j := add (r ! (i + j)) (mul x (b ! j) p) p]) [0..<m] r0"
  have mb: "m \<le> length b" "m < length b"
    using Suc.prems(1) by simp_all
  have le: "i + m \<le> length r0" and lt: "i + m < length r0"
    using Suc.prems(2) by simp_all
  have IH: "?row m ! k = (if i \<le> k \<and> k - i < m then (r0 ! k + x * b ! (k - i)) mod p else r0 ! k)"
    using Suc.IH [OF mb(1) le Suc.prems(3)] .
  have IHm: "?row m ! (i + m) = r0 ! (i + m)"
    using Suc.IH [OF mb(1) le lt] by simp
  have step: "?row (Suc m) = (?row m)[i + m := add (?row m ! (i + m)) (mul x (b ! m) p) p]"
    by simp
  show ?case
  proof (cases "k = i + m")
    case True
    have "i + m < length (?row m)"
      using lt by (simp add: mul_row_length)
    then have "?row (Suc m) ! k = add (r0 ! (i + m)) (mul x (b ! m) p) p"
      unfolding step True IHm by simp
    also have "\<dots> = (r0 ! (i + m) + x * b ! m) mod p"
      using assms(1,2) assms(3) lt assms(4) mb(2) by (intro add_mul_pos) (simp_all add: nth_mem)
    finally show ?thesis
      using True by simp
  next
    case False
    then have "?row (Suc m) ! k = ?row m ! k"
      unfolding step by simp
    moreover have "(i \<le> k \<and> k - i < Suc m) = (i \<le> k \<and> k - i < m)"
      using False by auto
    ultimately show ?thesis
      using IH by simp
  qed
qed

lemma mul_rows_nth:
  assumes "0 < p" and "p \<le> 2 ^ 30"
    and "\<forall>i < length a. \<forall>j < length b. in_int (a ! i * b ! j)"
  shows "m \<le> length a \<Longrightarrow> m + length b \<le> sz + 1 \<Longrightarrow> k < sz \<Longrightarrow>
         fold (\<lambda>i. fold (\<lambda>j r. r[i + j := add (r ! (i + j)) (mul (a ! i) (b ! j) p) p]) [0..<length b])
              [0..<m] (replicate sz 0) ! k
           = sum_list (map (\<lambda>i. if i \<le> k \<and> k - i < length b then a ! i * b ! (k - i) else 0) [0..<m]) mod p"
proof (induction m)
  case 0
  then show ?case by simp
next
  case (Suc m)
  let ?rows = "\<lambda>m. fold (\<lambda>i. fold (\<lambda>j r. r[i + j := add (r ! (i + j)) (mul (a ! i) (b ! j) p) p]) [0..<length b])
              [0..<m] (replicate sz 0)"
  let ?t = "\<lambda>i. if i \<le> k \<and> k - i < length b then a ! i * b ! (k - i) else 0"
  have len: "length (?rows m) = sz"
    by (simp add: mul_rows_length)
  have rng: "\<forall>x \<in> set (?rows m). 0 \<le> x \<and> x < p"
    using assms(1) by (intro mul_rows_range [OF assms(1,2)]) simp
  have prods: "\<forall>j < length b. in_int (a ! m * b ! j)"
    using assms(3) Suc.prems(1) by simp
  have IH: "?rows m ! k = sum_list (map ?t [0..<m]) mod p"
    using Suc by simp
  have "?rows (Suc m) ! k
      = fold (\<lambda>j r. r[m + j := add (r ! (m + j)) (mul (a ! m) (b ! j) p) p]) [0..<length b] (?rows m) ! k"
    by simp
  also have "\<dots> = (if m \<le> k \<and> k - m < length b then (?rows m ! k + a ! m * b ! (k - m)) mod p else ?rows m ! k)"
    using Suc.prems len by (intro mul_row_nth [OF assms(1,2) rng prods]) simp_all
  also have "\<dots> = (sum_list (map ?t [0..<m]) + ?t m) mod p"
    unfolding IH by (simp add: mod_add_left_eq)
  also have "\<dots> = sum_list (map ?t [0..<Suc m]) mod p"
    by simp
  finally show ?case .
qed

lemma operator_mul_total:
  assumes "coeffs A \<noteq> [] \<or> coeffs B \<noteq> []"
    and "length (coeffs A) + length (coeffs B) - 1 \<le> max_size"
    and "q g \<noteq> 0 \<or> coeffs A = [] \<or> coeffs B = []"
  shows "\<exists>R. operator_mul g A B = Inr R
           \<and> length (coeffs R) = length (coeffs A) + length (coeffs B) - 1
           \<and> coeffs R = fold (\<lambda>i. fold (\<lambda>j r. r[i + j := add (r ! (i + j)) (mul (coeffs A ! i) (coeffs B ! j) (q g)) (q g)])
               [0..<length (coeffs B)])
           [0..<length (coeffs A)] (replicate (length (coeffs A) + length (coeffs B) - 1) 0)"
proof -
  let ?sz = "length (coeffs A) + length (coeffs B) - 1"
  have pos: "0 < length (coeffs A) + length (coeffs B)"
    using assms(1) by auto
  moreover have "length (coeffs A) + length (coeffs B) \<le> 2 ^ 64"
    using assms(2) by (simp add: max_size_def)
  ultimately have sz: "(length (coeffs A) + length (coeffs B) + 2 ^ 64 - 1) mod 2 ^ 64 = ?sz"
    by (rule size_t_pred)
  let ?R = "fold (\<lambda>i. fold (\<lambda>j r. r[i + j := add (r ! (i + j)) (mul (coeffs A ! i) (coeffs B ! j) (q g)) (q g)])
               [0..<length (coeffs B)])
           [0..<length (coeffs A)] (replicate ?sz 0)"
  have "operator_mul g A B = Inr (Polynomial ?R)"
    unfolding operator_mul_def sz using assms(2,3) by (auto simp: Let_def)
  moreover have "length ?R = ?sz"
    by (simp add: mul_rows_length)
  ultimately show ?thesis
    by simp
qed

lemma operator_mul_ok:
  assumes "0 < q g" and "q g \<le> 2 ^ 30" and "coeffs A \<noteq> [] \<or> coeffs B \<noteq> []"
    and "length (coeffs A) + length (coeffs B) - 1 \<le> max_size"
    and "\<forall>i < length (coeffs A). \<forall>j < length (coeffs B). in_int (coeffs A ! i * coeffs B ! j)"
  shows "\<exists>R. operator_mul g A B = Inr R
           \<and> length (coeffs R) = length (coeffs A) + length (coeffs B) - 1
           \<and> (\<forall>k < length (coeffs R). coeffs R ! k = convolution A B k mod q g)"
proof -
  let ?sz = "length (coeffs A) + length (coeffs B) - 1"
  have pos: "0 < length (coeffs A) + length (coeffs B)"
    using assms(3) by auto
  have "q g \<noteq> 0 \<or> coeffs A = [] \<or> coeffs B = []"
    using assms(1) by simp
  from operator_mul_total [OF assms(3,4) this] obtain R where R: "operator_mul g A B = Inr R"
    and len: "length (coeffs R) = ?sz"
    and val: "coeffs R = fold (\<lambda>i. fold (\<lambda>j r. r[i + j := add (r ! (i + j)) (mul (coeffs A ! i) (coeffs B ! j) (q g)) (q g)])
               [0..<length (coeffs B)])
           [0..<length (coeffs A)] (replicate ?sz 0)"
    by blast
  have "coeffs R ! k = convolution A B k mod q g" if "k < ?sz" for k
    unfolding convolution_def val using pos that by (intro mul_rows_nth [OF assms(1,2,5)]) simp_all
  with R len show ?thesis
    by simp
qed

lemma oop_operator_mul_eq: "oop_operator_mul A B = operator_mul (g\<lparr>q := MODULO\<rparr>) A B"
  by (simp add: oop_operator_mul_def operator_mul_def FieldArithmetic_add_eq FieldArithmetic_mul_eq
      MODULO_def Let_def)

lemma zero_mul_nonempty:
  assumes "coeffs A \<noteq> []" and "length (coeffs A) - 1 \<le> max_size"
  shows "\<exists>R. operator_mul g (Polynomial []) A = Inr R \<and> trim R = trim (Polynomial [])"
proof -
  from operator_mul_total [of "Polynomial []" A g] assms
  obtain R where R: "operator_mul g (Polynomial []) A = Inr R"
    and val: "coeffs R = replicate (length (coeffs A) - 1) 0"
    by auto
  then have "trim R = trim (Polynomial [])"
    by (simp add: trim_def trim_coeffs_zeros trim_coeffs_Nil)
  with R show ?thesis
    by blast
qed

subsection \<open>Encryption\<close>

lemma encrypt_Inr_length:
  "encrypt g m pk params s = Inr (c, s') \<Longrightarrow> length (coeffs c) = to_size_t (n g)"
  by (auto simp: encrypt_def mod_tn_Inr_length split: sum.splits prod.splits)

lemma encrypt_ok:
  assumes "2 \<le> q P" and "1 \<le> n P" and "n P < 2 ^ 31" and "2 \<le> l P"
    and "0 \<le> dr P" and "0 \<le> dX P" and "dX P + dr P < 2 ^ 31 - 1"
    and "length (coeffs pk) < 2 ^ 31"
  shows "\<exists>c s2. encrypt P m pk P s = Inr (c, s2) \<and> length (coeffs c) = nat (n P)"
proof -
  have qne: "q P \<noteq> 0"
    using assms(1) by simp
  have "0 \<le> dr P" "dr P < 2 ^ 31 - 1" "0 < q P - 1"
    using assms by simp_all
  from sample_facts [OF this, of s]
  obtain r s1 where r: "random_polynomial (dr P) (q P - 1) s = Inr (r, s1)"
    and rlen: "length (coeffs r) = nat (dr P) + 1"
    by blast
  have "0 \<le> dX P + dr P" "dX P + dr P < 2 ^ 31 - 1" "0 < l P - 1"
    using assms by simp_all
  from sample_facts [OF this, of s1]
  obtain e s2 where e: "random_polynomial (dX P + dr P) (l P - 1) s1 = Inr (e, s2)"
    by blast
  have "coeffs pk \<noteq> [] \<or> coeffs r \<noteq> []"
    using rlen by auto
  moreover have "length (coeffs pk) + length (coeffs r) - 1 \<le> max_size"
  proof -
    have "nat (dr P) < 2 ^ 31"
      using assms by (simp add: nat_less_iff)
    then show ?thesis
      using assms(8) rlen by (simp add: max_size_def)
  qed
  ultimately obtain xr where xr: "operator_mul P pk r = Inr xr"
    using operator_mul_total [of pk r P] qne by blast
  from mod_tn_total [OF assms(2,3) qne, of xr]
  obtain xm where xm: "mod_tn P xr = Inr xm"
    by blast
  obtain sum1 where sum1: "operator_add P m xm = Inr sum1"
    using operator_add_total [OF qne] by blast
  obtain ct where ct: "operator_add P sum1 e = Inr ct"
    using operator_add_total [OF qne] by blast
  from mod_tn_total [OF assms(2,3) qne, of ct]
  obtain c where c: "mod_tn P ct = Inr c" and clen: "length (coeffs c) = nat (n P)"
    by blast
  have "encrypt P m pk P s = Inr (c, s2)"
    by (simp add: encrypt_def r e xr xm sum1 ct c)
  with clen show ?thesis
    by blast
qed




section \<open>The sampler\<close>

text \<open>
  Claim C5, as amended.  For a degree bound \<open>d \<ge> 0\<close> (below the largest \<open>int\<close>), a
  coefficient bound \<open>b > 0\<close> and every state of the randomness source, both samplers
  return a polynomial of length \<open>d + 1\<close>.  The coefficients of \<open>random_polynomial\<close>
  lie in \<open>[0, b)\<close>; those of \<open>RandomPolynomialGenerator::generate\<close> lie in
  \<open>[0, b]\<close>, the bound included.
\<close>

theorem sample_length_and_range:
  assumes "0 \<le> d" and "d < 2 ^ 31 - 1" and "0 < b"
  shows "(\<exists>p s'. random_polynomial d b s = Inr (p, s') \<and> length (coeffs p) = nat d + 1
            \<and> (\<forall>c \<in> set (coeffs p). 0 \<le> c \<and> c < b))
       \<and> (\<exists>p s'. RandomPolynomialGenerator_generate d b s = Inr (p, s') \<and> length (coeffs p) = nat d + 1
            \<and> (\<forall>c \<in> set (coeffs p). 0 \<le> c \<and> c \<le> b))"
proof
  show "\<exists>p s'. random_polynomial d b s = Inr (p, s') \<and> length (coeffs p) = nat d + 1
            \<and> (\<forall>c \<in> set (coeffs p). 0 \<le> c \<and> c < b)"
    using assms by (rule sample_facts)
  define k where "k = nat (d + 1)"
  have k: "k = nat d + 1"
    using assms by (simp add: k_def)
  have "RandomPolynomialGenerator_generate d b s = Inr (Polynomial (fst (fill k 0 b s)), snd (fill k 0 b s))"
    unfolding k_def using assms by (intro generate_ok) simp_all
  moreover have "length (fst (fill k 0 b s)) = nat d + 1"
    by (simp only: fill_length k)
  moreover have "\<forall>c \<in> set (fst (fill k 0 b s)). 0 \<le> c \<and> c \<le> b"
    using fill_range [of 0 b _ k s] assms by fastforce
  ultimately show "\<exists>p s'. RandomPolynomialGenerator_generate d b s = Inr (p, s') \<and> length (coeffs p) = nat d + 1
            \<and> (\<forall>c \<in> set (coeffs p). 0 \<le> c \<and> c \<le> b)"
    by (metis Polynomial.sel)
qed

theorem sample_length_and_range_witness:
  "(0::int) \<le> 2 \<and> (2::int) < 2 ^ 31 - 1 \<and> (0::int) < 4
   \<and> (\<exists>p s'. random_polynomial 2 4 (constant_source 7 0) = Inr (p, s') \<and> length (coeffs p) = nat 2 + 1
            \<and> (\<forall>c \<in> set (coeffs p). 0 \<le> c \<and> c < 4))
   \<and> (\<exists>p s'. RandomPolynomialGenerator_generate 2 4 (constant_source 7 0) = Inr (p, s') \<and> length (coeffs p) = nat 2 + 1
            \<and> (\<forall>c \<in> set (coeffs p). 0 \<le> c \<and> c \<le> 4))"
proof -
  have h: "(0::int) \<le> 2" "(2::int) < 2 ^ 31 - 1" "(0::int) < 4"
    by simp_all
  from sample_length_and_range [OF h, of "constant_source 7 0"] h show ?thesis
    by blast
qed

text \<open>
  The bound is reached: with \<open>max_coeff = 4\<close> the generator of \<open>main.cpp\<close> returns
  the coefficient \<open>4\<close>, which is not strictly below the bound.
\<close>

theorem generate_reaches_bound:
  "RandomPolynomialGenerator_generate 2 4 (constant_source 4 0)
     = Inr (Polynomial [4, 4, 4], constant_source 4 3)
   \<and> \<not> coeffs (Polynomial [4, 4, 4]) ! 0 < (4::int)"
  apply (simp add: generate_ok fill_numeral uniform_int_constant_source)
  apply (simp add: eval_nat_numeral)
  done


section \<open>Decryption\<close>

text \<open>
  Claim C4, as amended.  \<open>decrypt\<close> checks no length: for a ciphertext of any
  length, and \<open>0 < l \<le> 2^30\<close> (so that \<open>(c % l) + l\<close> stays within \<open>int\<close>), it
  returns a polynomial of the same length whose \<open>i\<close>-th coefficient is the \<open>i\<close>-th
  coefficient of the ciphertext modulo \<open>l\<close>.
\<close>

theorem decrypt_reduces_each_coefficient:
  assumes "0 < l g" and "l g \<le> 2 ^ 30"
  shows "\<exists>d. decrypt g c ux uy = Inr d \<and> length (coeffs d) = length (coeffs c)
           \<and> (\<forall>i < length (coeffs c). coeffs d ! i = coeffs c ! i mod l g)"
  using assms by (simp add: decrypt_def mod_fn_pos)

theorem decrypt_reduces_each_coefficient_witness:
  "0 < l param128 \<and> l param128 \<le> 2 ^ 30
   \<and> (\<exists>d. decrypt param128 (Polynomial [5, 9]) (Polynomial []) (Polynomial []) = Inr d
       \<and> length (coeffs d) = length (coeffs (Polynomial [5, 9]))
       \<and> (\<forall>i < length (coeffs (Polynomial [5, 9])). coeffs d ! i = coeffs (Polynomial [5, 9]) ! i mod l param128))"
proof -
  have h: "0 < l param128" "l param128 \<le> 2 ^ 30"
    by (simp_all add: param128_def)
  from decrypt_reduces_each_coefficient [OF h] h show ?thesis
    by blast
qed

text \<open>
  A ciphertext of length 2 under the preset with \<open>n = 11\<close> is decrypted, not
  rejected.
\<close>

theorem decrypt_accepts_wrong_length:
  "decrypt param128 (Polynomial [5, 9]) (Polynomial []) (Polynomial []) = Inr (Polynomial [1, 1])
   \<and> int (length (coeffs (Polynomial [5, 9]))) \<noteq> n param128"
  by (simp add: decrypt_def param128_def mod_fn_def wrap_def signed_modulo_int_def)


section \<open>Key generation\<close>




text \<open>
  Claim C3, as amended.  A key pair returned by \<open>keygen\<close> has \<open>ux\<close> and \<open>uy\<close> of
  degree \<open>n - 1\<close> with every coefficient in \<open>[0, l)\<close>.  A key returned by
  \<open>GiophantusKeyGen::generate\<close> of \<open>main.cpp\<close> has \<open>ux\<close> and \<open>uy\<close> of degree
  \<open>params.degree\<close> (one more than \<open>n - 1\<close>, for \<open>params.degree\<close> is the \<open>n\<close> of the
  presets) with every coefficient in \<open>[0, noise_bound]\<close>, the bound included.
\<close>

theorem key_pair_degree_and_range:
  "(keygen g s = Some (Inr ((ux, uy, X), s')) \<and> - (2 ^ 31) \<le> n g \<and> n g < 2 ^ 31
      \<longrightarrow> degree ux = n g - 1 \<and> degree uy = n g - 1
          \<and> (\<forall>c \<in> set (coeffs ux) \<union> set (coeffs uy). 0 \<le> c \<and> c < l g))
   \<and> (GiophantusKeyGen_generate params t = Inr (GiophantusKey vx vy Y)
        \<and> - (2 ^ 31) \<le> GiophantusParams_oop.degree params \<and> GiophantusParams_oop.degree params < 2 ^ 31 - 1
      \<longrightarrow> degree vx = GiophantusParams_oop.degree params \<and> degree vy = GiophantusParams_oop.degree params
          \<and> (\<forall>c \<in> set (coeffs vx) \<union> set (coeffs vy). 0 \<le> c \<and> c \<le> noise_bound params))"
proof (intro conjI impI)
  assume a: "keygen g s = Some (Inr ((ux, uy, X), s')) \<and> - (2 ^ 31) \<le> n g \<and> n g < 2 ^ 31"
  then obtain s1 s2 where ux: "random_polynomial (n g - 1) (l g) s = Inr (ux, s1)"
    and uy: "random_polynomial (n g - 1) (l g) s1 = Inr (uy, s2)"
    using keygen_with_result [of is_irreducible g s ux uy X s'] by (auto simp: keygen_eq)
  have r: "- (2 ^ 31) \<le> n g - 1 + 1" "n g - 1 + 1 < 2 ^ 31"
    using a by simp_all
  note fx = random_polynomial_Inr [OF ux r] and fy = random_polynomial_Inr [OF uy r]
  have "length (coeffs ux) = nat (n g)" "length (coeffs uy) = nat (n g)" "0 \<le> n g"
    using fx fy by simp_all
  moreover have "nat (n g) \<le> 2 ^ 31"
    using a by (simp add: nat_le_iff)
  ultimately show "degree ux = n g - 1" "degree uy = n g - 1"
    using degree_length [of "coeffs ux"] degree_length [of "coeffs uy"] by simp_all
  show "\<forall>c \<in> set (coeffs ux) \<union> set (coeffs uy). 0 \<le> c \<and> c < l g"
    using fx fy by blast
next
  let ?d = "GiophantusParams_oop.degree params"
  assume a: "GiophantusKeyGen_generate params t = Inr (GiophantusKey vx vy Y)
        \<and> - (2 ^ 31) \<le> ?d \<and> ?d < 2 ^ 31 - 1"
  then obtain s1 s2 where vx: "RandomPolynomialGenerator_generate ?d (noise_bound params) t = Inr (vx, s1)"
    and vy: "RandomPolynomialGenerator_generate ?d (noise_bound params) s1 = Inr (vy, s2)"
    using generate_result [of params t vx vy Y] by auto
  have r: "- (2 ^ 31) \<le> ?d + 1" "?d + 1 < 2 ^ 31"
    using a by simp_all
  note fx = generate_Inr [OF vx r] and fy = generate_Inr [OF vy r]
  have "length (coeffs vx) = nat (?d + 1)" "length (coeffs vy) = nat (?d + 1)" "- 1 \<le> ?d"
    using fx fy by simp_all
  moreover have "nat (?d + 1) \<le> 2 ^ 31"
    using a by (simp add: nat_le_iff)
  ultimately show "degree vx = ?d" "degree vy = ?d"
    using degree_length [of "coeffs vx"] degree_length [of "coeffs vy"] by simp_all
  show "\<forall>c \<in> set (coeffs vx) \<union> set (coeffs vy). 0 \<le> c \<and> c \<le> noise_bound params"
    using fx fy by blast
qed

theorem key_pair_degree_and_range_witness:
  "(keygen param128 (constant_source 5 0) =
       Some (Inr ((Polynomial [1, 1, 1, 1, 1, 1, 1, 1, 1, 1, 1], Polynomial [1, 1, 1, 1, 1, 1, 1, 1, 1, 1, 1],
                 Polynomial [5, 5, 5]), constant_source 5 25))
      \<and> - (2 ^ 31) \<le> n param128 \<and> n param128 < 2 ^ 31)
   \<and> degree (Polynomial [1, 1, 1, 1, 1, 1, 1, 1, 1, 1, 1]) = n param128 - 1
   \<and> list_all (\<lambda>c. 0 \<le> c \<and> c < l param128) (coeffs (Polynomial [1, 1, 1, 1, 1, 1, 1, 1, 1, 1, 1]))
   \<and> (GiophantusKeyGen_generate oop_param128 (constant_source 4 0) =
        Inr (GiophantusKey (Polynomial [4, 4, 4, 4, 4, 4, 4, 4, 4, 4, 4, 4])
            (Polynomial [4, 4, 4, 4, 4, 4, 4, 4, 4, 4, 4, 4])
            (Polynomial [4, 4, 4, 4, 4, 4, 4, 4, 4, 4, 4, 4]))
        \<and> - (2 ^ 31) \<le> GiophantusParams_oop.degree oop_param128
        \<and> GiophantusParams_oop.degree oop_param128 < 2 ^ 31 - 1)
   \<and> degree (Polynomial [4, 4, 4, 4, 4, 4, 4, 4, 4, 4, 4, 4]) = GiophantusParams_oop.degree oop_param128
   \<and> list_all (\<lambda>c. 0 \<le> c \<and> c \<le> noise_bound oop_param128) (coeffs (Polynomial [4, 4, 4, 4, 4, 4, 4, 4, 4, 4, 4, 4]))"
proof -
  have h1: "keygen param128 (constant_source 5 0) =
       Some (Inr ((Polynomial [1, 1, 1, 1, 1, 1, 1, 1, 1, 1, 1], Polynomial [1, 1, 1, 1, 1, 1, 1, 1, 1, 1, 1],
                 Polynomial [5, 5, 5]), constant_source 5 25))
      \<and> - (2 ^ 31) \<le> n param128 \<and> n param128 < 2 ^ 31"
    by (simp add: keygen_constant_source param128_simps)
  have h2: "GiophantusKeyGen_generate oop_param128 (constant_source 4 0) =
        Inr (GiophantusKey (Polynomial [4, 4, 4, 4, 4, 4, 4, 4, 4, 4, 4, 4])
            (Polynomial [4, 4, 4, 4, 4, 4, 4, 4, 4, 4, 4, 4])
            (Polynomial [4, 4, 4, 4, 4, 4, 4, 4, 4, 4, 4, 4]))
        \<and> - (2 ^ 31) \<le> GiophantusParams_oop.degree oop_param128
        \<and> GiophantusParams_oop.degree oop_param128 < 2 ^ 31 - 1"
    by (simp add: generate_constant_source oop_param128_simps)
  from key_pair_degree_and_range
    [of param128 "constant_source 5 0" "Polynomial [1, 1, 1, 1, 1, 1, 1, 1, 1, 1, 1]"
        "Polynomial [1, 1, 1, 1, 1, 1, 1, 1, 1, 1, 1]" "Polynomial [5, 5, 5]" "constant_source 5 25"
        oop_param128 "constant_source 4 0" "Polynomial [4, 4, 4, 4, 4, 4, 4, 4, 4, 4, 4, 4]"
        "Polynomial [4, 4, 4, 4, 4, 4, 4, 4, 4, 4, 4, 4]" "Polynomial [4, 4, 4, 4, 4, 4, 4, 4, 4, 4, 4, 4]"]
    h1 h2
  show ?thesis
    by (simp add: list_all_iff)
qed

text \<open>
  Under the first preset of \<open>main.cpp\<close> (\<open>degree = 11\<close>, \<open>noise_bound = 4\<close>) a
  generated \<open>ux\<close> has degree 11, above \<open>n - 1 = 10\<close>, and the coefficient 4.
\<close>

theorem oop_key_exceeds_degree_and_bound:
  "GiophantusKeyGen_generate oop_param128 (constant_source 4 0) =
     Inr (GiophantusKey (Polynomial [4, 4, 4, 4, 4, 4, 4, 4, 4, 4, 4, 4])
            (Polynomial [4, 4, 4, 4, 4, 4, 4, 4, 4, 4, 4, 4])
            (Polynomial [4, 4, 4, 4, 4, 4, 4, 4, 4, 4, 4, 4]))
   \<and> degree (Polynomial [4, 4, 4, 4, 4, 4, 4, 4, 4, 4, 4, 4]) = 11
   \<and> \<not> degree (Polynomial [4, 4, 4, 4, 4, 4, 4, 4, 4, 4, 4, 4]) \<le> GiophantusParams_oop.degree oop_param128 - 1
   \<and> \<not> coeffs (Polynomial [4, 4, 4, 4, 4, 4, 4, 4, 4, 4, 4, 4]) ! 0 < noise_bound oop_param128"
  by (simp add: generate_constant_source degree_length oop_param128_simps)


section \<open>Ring reduction\<close>

text \<open>
  Claim C7.  For \<open>n \<ge> 1\<close> (within \<open>int\<close>) and \<open>q > 0\<close>, \<open>mod_tn\<close> returns, for an
  input of any length, the empty one included, a polynomial of length exactly \<open>n\<close>.
  Hence for \<open>B\<close>, \<open>C\<close> of length \<open>n\<close> the reductions of \<open>B + C\<close> and of \<open>B * C\<close>
  exist and have length \<open>n\<close>, every ciphertext that \<open>encrypt\<close> returns has length
  \<open>n\<close>, and \<open>encrypt\<close> does return one when \<open>q \<ge> 2\<close>, \<open>l \<ge> 2\<close>, \<open>dr \<ge> 0\<close> and
  \<open>dX \<ge> 0\<close>.
\<close>

theorem reduce_ring_length:
  assumes "1 \<le> n g" and "n g < 2 ^ 31" and "0 < q g"
  shows "(\<exists>R. mod_tn g A = Inr R \<and> length (coeffs R) = nat (n g))
       \<and> (length (coeffs B) = nat (n g) \<and> length (coeffs C) = nat (n g)
            \<longrightarrow> (\<exists>S R1 P R2. operator_add g B C = Inr S \<and> mod_tn g S = Inr R1
                    \<and> length (coeffs R1) = nat (n g)
                    \<and> operator_mul g B C = Inr P \<and> mod_tn g P = Inr R2
                    \<and> length (coeffs R2) = nat (n g)))
       \<and> (\<forall>c s'. encrypt g m pk params s = Inr (c, s') \<longrightarrow> length (coeffs c) = nat (n g))
       \<and> (2 \<le> q g \<and> 2 \<le> l g \<and> 0 \<le> dr g \<and> 0 \<le> dX g \<and> dX g + dr g < 2 ^ 31 - 1
              \<and> length (coeffs pk) < 2 ^ 31
            \<longrightarrow> (\<exists>c s'. encrypt g m pk g s = Inr (c, s') \<and> length (coeffs c) = nat (n g)))"
proof (intro conjI impI allI)
  have qne: "q g \<noteq> 0"
    using assms(3) by simp
  have sz: "to_size_t (n g) = nat (n g)"
    using assms by (intro to_size_t_nat) simp_all
  show "\<exists>R. mod_tn g A = Inr R \<and> length (coeffs R) = nat (n g)"
    using assms(1,2) qne by (rule mod_tn_total)
  show "length (coeffs c) = nat (n g)" if "encrypt g m pk params s = Inr (c, s')" for c s'
    using encrypt_Inr_length [OF that] sz by simp
  show "\<exists>S R1 P R2. operator_add g B C = Inr S \<and> mod_tn g S = Inr R1
                    \<and> length (coeffs R1) = nat (n g)
                    \<and> operator_mul g B C = Inr P \<and> mod_tn g P = Inr R2
                    \<and> length (coeffs R2) = nat (n g)"
    if len: "length (coeffs B) = nat (n g) \<and> length (coeffs C) = nat (n g)"
  proof -
    obtain S where S: "operator_add g B C = Inr S"
      using operator_add_total [OF qne] by blast
    have "coeffs B \<noteq> [] \<or> coeffs C \<noteq> []"
      using len assms(1) by auto
    moreover have "length (coeffs B) + length (coeffs C) - 1 \<le> max_size"
    proof -
      have "nat (n g) < 2 ^ 31"
        using assms by (simp add: nat_less_iff)
      then show ?thesis
        using len by (simp add: max_size_def)
    qed
    ultimately obtain P where P: "operator_mul g B C = Inr P"
      using operator_mul_total [of B C g] qne by blast
    from mod_tn_total [OF assms(1,2) qne, of S] mod_tn_total [OF assms(1,2) qne, of P] S P
    show ?thesis
      by blast
  qed
  show "\<exists>c s'. encrypt g m pk g s = Inr (c, s') \<and> length (coeffs c) = nat (n g)"
    if h: "2 \<le> q g \<and> 2 \<le> l g \<and> 0 \<le> dr g \<and> 0 \<le> dX g \<and> dX g + dr g < 2 ^ 31 - 1
              \<and> length (coeffs pk) < 2 ^ 31"
    using encrypt_ok [of g pk m s] assms(1,2) h by blast
qed

theorem reduce_ring_length_witness:
  "1 \<le> n param128 \<and> n param128 < 2 ^ 31 \<and> 0 < q param128
   \<and> (\<exists>R. mod_tn param128 (Polynomial []) = Inr R \<and> length (coeffs R) = nat (n param128))
   \<and> (length (coeffs (Polynomial [1, 2, 3, 4, 5, 6, 7, 8, 9, 10, 11])) = nat (n param128)
        \<and> length (coeffs (Polynomial [16, 15, 14, 13, 12, 11, 10, 9, 8, 7, 6])) = nat (n param128))
   \<and> (\<exists>S R1 P R2. operator_add param128 (Polynomial [1, 2, 3, 4, 5, 6, 7, 8, 9, 10, 11])
                      (Polynomial [16, 15, 14, 13, 12, 11, 10, 9, 8, 7, 6]) = Inr S
                    \<and> mod_tn param128 S = Inr R1
                    \<and> length (coeffs R1) = nat (n param128)
                    \<and> operator_mul param128 (Polynomial [1, 2, 3, 4, 5, 6, 7, 8, 9, 10, 11])
                      (Polynomial [16, 15, 14, 13, 12, 11, 10, 9, 8, 7, 6]) = Inr P
                    \<and> mod_tn param128 P = Inr R2
                    \<and> length (coeffs R2) = nat (n param128))
   \<and> (2 \<le> q param128 \<and> 2 \<le> l param128 \<and> 0 \<le> dr param128 \<and> 0 \<le> dX param128
        \<and> dX param128 + dr param128 < 2 ^ 31 - 1 \<and> length (coeffs (Polynomial [5, 5, 5])) < 2 ^ 31)
   \<and> (\<exists>c s'. encrypt param128 (Polynomial [1, 0, 3]) (Polynomial [5, 5, 5]) param128 (constant_source 5 25)
                 = Inr (c, s') \<and> length (coeffs c) = nat (n param128))"
proof -
  have h: "1 \<le> n param128" "n param128 < 2 ^ 31" "0 < q param128"
    by (simp_all add: param128_simps)
  have len: "length (coeffs (Polynomial [1, 2, 3, 4, 5, 6, 7, 8, 9, 10, 11])) = nat (n param128)
        \<and> length (coeffs (Polynomial [16, 15, 14, 13, 12, 11, 10, 9, 8, 7, 6])) = nat (n param128)"
    by (simp add: param128_simps)
  have enc: "2 \<le> q param128 \<and> 2 \<le> l param128 \<and> 0 \<le> dr param128 \<and> 0 \<le> dX param128
        \<and> dX param128 + dr param128 < 2 ^ 31 - 1 \<and> length (coeffs (Polynomial [5, 5, 5])) < 2 ^ 31"
    by (simp add: param128_simps)
  from reduce_ring_length [OF h, of "Polynomial []" "Polynomial [1, 2, 3, 4, 5, 6, 7, 8, 9, 10, 11]"
      "Polynomial [16, 15, 14, 13, 12, 11, 10, 9, 8, 7, 6]" "Polynomial [1, 0, 3]" "Polynomial [5, 5, 5]"
      param128 "constant_source 5 25"] h len enc
  show ?thesis
    by blast
qed

text \<open>
  Claim C8, as amended.  Let \<open>n \<ge> 1\<close> and \<open>0 < q \<le> 2^30\<close>, so that \<open>(a % q) + q\<close>
  stays within \<open>int\<close>, and let every coefficient \<open>c\<close> of \<open>A\<close> be such that \<open>c + (q - 1)\<close>
  is within \<open>int\<close>, so that no sum \<open>result[i % n] + A[i]\<close> leaves \<open>int\<close>.  Then reducing
  the result of \<open>mod_tn\<close> again returns it unchanged; and a polynomial of length \<open>n\<close>
  with all coefficients in \<open>[0, q)\<close> is returned unchanged.
\<close>

theorem mod_tn_idempotent:
  assumes "1 \<le> n g" and "n g < 2 ^ 31" and "0 < q g" and "q g \<le> 2 ^ 30"
    and "\<forall>x \<in> set (coeffs A). in_int x \<and> in_int (x + (q g - 1))"
  shows "(\<exists>R. mod_tn g A = Inr R \<and> mod_tn g R = Inr R)
       \<and> (length (coeffs B) = nat (n g) \<and> (\<forall>x \<in> set (coeffs B). 0 \<le> x \<and> x < q g)
            \<longrightarrow> mod_tn g B = Inr B)"
proof -
  have fixed: "mod_tn g C = Inr C"
    if "length (coeffs C) = nat (n g)" and "\<forall>x \<in> set (coeffs C). 0 \<le> x \<and> x < q g" for C
    using mod_tn_short [OF assms(1-4), of C] that by simp
  have "q g \<noteq> 0"
    using assms(3) by simp
  from mod_tn_ok [OF assms(1,2) this, of A] obtain R where R: "mod_tn g A = Inr R"
    by blast
  have "to_size_t (n g) = nat (n g)"
    using assms by (intro to_size_t_nat) simp_all
  then have "length (coeffs R) = nat (n g)"
    using mod_tn_Inr_length [OF R] by simp
  moreover have "\<forall>x \<in> set (coeffs R). 0 \<le> x \<and> x < q g"
    using assms(1-4) R by (rule mod_tn_range)
  ultimately have "mod_tn g R = Inr R"
    by (rule fixed)
  with R fixed show ?thesis
    by blast
qed

theorem mod_tn_idempotent_witness:
  "1 \<le> n param128 \<and> n param128 < 2 ^ 31 \<and> 0 < q param128 \<and> q param128 \<le> 2 ^ 30
   \<and> list_all (\<lambda>x. in_int x \<and> in_int (x + (q param128 - 1)))
        (coeffs (Polynomial [1, 2, 3, 4, 5, 6, 7, 8, 9, 10, 11, 12, 13]))
   \<and> (\<exists>R. mod_tn param128 (Polynomial [1, 2, 3, 4, 5, 6, 7, 8, 9, 10, 11, 12, 13]) = Inr R
          \<and> mod_tn param128 R = Inr R)
   \<and> length (coeffs (Polynomial [0, 1, 2, 3, 4, 5, 6, 7, 8, 9, 16])) = nat (n param128)
   \<and> list_all (\<lambda>x. 0 \<le> x \<and> x < q param128) (coeffs (Polynomial [0, 1, 2, 3, 4, 5, 6, 7, 8, 9, 16]))
   \<and> mod_tn param128 (Polynomial [0, 1, 2, 3, 4, 5, 6, 7, 8, 9, 16])
        = Inr (Polynomial [0, 1, 2, 3, 4, 5, 6, 7, 8, 9, 16])"
proof -
  have h: "1 \<le> n param128" "n param128 < 2 ^ 31" "0 < q param128" "q param128 \<le> 2 ^ 30"
    by (simp_all add: param128_simps)
  have a: "\<forall>x \<in> set (coeffs (Polynomial [1, 2, 3, 4, 5, 6, 7, 8, 9, 10, 11, 12, 13])).
             in_int x \<and> in_int (x + (q param128 - 1))"
    by (simp add: param128_simps in_int_def)
  have b: "length (coeffs (Polynomial [0, 1, 2, 3, 4, 5, 6, 7, 8, 9, 16])) = nat (n param128)
        \<and> (\<forall>x \<in> set (coeffs (Polynomial [0, 1, 2, 3, 4, 5, 6, 7, 8, 9, 16])). 0 \<le> x \<and> x < q param128)"
    by (simp add: param128_simps)
  from mod_tn_idempotent [OF h a, of "Polynomial [0, 1, 2, 3, 4, 5, 6, 7, 8, 9, 16]"] h a b
  show ?thesis
    unfolding list_all_iff by blast
qed

text \<open>
  For a modulus above \<open>2^30\<close> the claim fails.  With the prime \<open>q = 2^31 - 1\<close> and
  \<open>n = 1\<close>, \<open>mod(1, q)\<close> computes \<open>(1 % q) + q = 2^31\<close>, which as an \<open>int\<close> is
  \<open>-2^31\<close>, and \<open>-2^31 % q\<close> is \<open>-1\<close>: the polynomial \<open>[1]\<close>, of length \<open>n\<close> and with
  its coefficient in \<open>[0, q)\<close>, is reduced to \<open>[-1]\<close>, and \<open>[-1]\<close> to \<open>[q - 1]\<close>.
\<close>

theorem mod_tn_large_modulus_not_idempotent:
  "mod_tn (param128\<lparr>q := 2147483647, n := 1\<rparr>) (Polynomial [1]) = Inr (Polynomial [- 1])
   \<and> mod_tn (param128\<lparr>q := 2147483647, n := 1\<rparr>) (Polynomial [- 1]) = Inr (Polynomial [2147483646])"
proof -
  have a: "add 0 1 2147483647 = - 1" "add 0 (- 1) 2147483647 = 2147483646"
    by (simp_all add: add_def mod_fn_def wrap_def signed_modulo_int_def)
  show ?thesis
    by (simp add: mod_tn_ok a)
qed


section \<open>Multiplication and the zero polynomial\<close>

text \<open>
  Claim C9, as amended.  Let \<open>A\<close> and \<open>B\<close> be polynomials that are not both empty
  (and whose product fits in a vector), and let every product \<open>A[i] * B[j]\<close> be
  within \<open>int\<close>.  Then \<open>operator*\<close> returns a polynomial of length
  \<open>len A + len B - 1\<close> whose \<open>k\<close>-th coefficient is the sum of all \<open>A[i] * B[j]\<close>
  with \<open>i + j = k\<close>, reduced modulo \<open>q\<close>, for \<open>0 < q \<le> 2^30\<close>, in the procedural
  variant and modulo \<open>MODULO\<close> in \<open>main.cpp\<close>.
\<close>

theorem multiply_is_convolution:
  assumes "coeffs A \<noteq> [] \<or> coeffs B \<noteq> []"
    and "length (coeffs A) + length (coeffs B) - 1 \<le> max_size"
    and "\<forall>i < length (coeffs A). \<forall>j < length (coeffs B). in_int (coeffs A ! i * coeffs B ! j)"
  shows "(0 < q g \<and> q g \<le> 2 ^ 30 \<longrightarrow> (\<exists>R. operator_mul g A B = Inr R
            \<and> length (coeffs R) = length (coeffs A) + length (coeffs B) - 1
            \<and> (\<forall>k < length (coeffs R). coeffs R ! k = convolution A B k mod q g)))
       \<and> (\<exists>R. oop_operator_mul A B = Inr R
            \<and> length (coeffs R) = length (coeffs A) + length (coeffs B) - 1
            \<and> (\<forall>k < length (coeffs R). coeffs R ! k = convolution A B k mod MODULO))"
proof (intro conjI impI)
  assume "0 < q g \<and> q g \<le> 2 ^ 30"
  then have "0 < q g" "q g \<le> 2 ^ 30"
    by simp_all
  then show "\<exists>R. operator_mul g A B = Inr R
            \<and> length (coeffs R) = length (coeffs A) + length (coeffs B) - 1
            \<and> (\<forall>k < length (coeffs R). coeffs R ! k = convolution A B k mod q g)"
    using assms by (rule operator_mul_ok)
next
  have "0 < q (g\<lparr>q := MODULO\<rparr>)" "q (g\<lparr>q := MODULO\<rparr>) \<le> 2 ^ 30"
    by (simp_all add: MODULO_def)
  from operator_mul_ok [OF this assms]
  show "\<exists>R. oop_operator_mul A B = Inr R
            \<and> length (coeffs R) = length (coeffs A) + length (coeffs B) - 1
            \<and> (\<forall>k < length (coeffs R). coeffs R ! k = convolution A B k mod MODULO)"
    by (simp add: oop_operator_mul_eq [of A B g])
qed

theorem multiply_is_convolution_witness:
  "coeffs (Polynomial [1, 2, 3]) \<noteq> []
   \<and> length (coeffs (Polynomial [1, 2, 3])) + length (coeffs (Polynomial [4, 5])) - 1 \<le> max_size
   \<and> list_all (\<lambda>a. list_all (\<lambda>b. in_int (a * b)) (coeffs (Polynomial [4, 5]))) (coeffs (Polynomial [1, 2, 3]))
   \<and> 0 < q param128 \<and> q param128 \<le> 2 ^ 30
   \<and> (\<exists>R. operator_mul param128 (Polynomial [1, 2, 3]) (Polynomial [4, 5]) = Inr R
            \<and> length (coeffs R) = length (coeffs (Polynomial [1, 2, 3])) + length (coeffs (Polynomial [4, 5])) - 1
            \<and> (\<forall>k < length (coeffs R). coeffs R ! k = convolution (Polynomial [1, 2, 3]) (Polynomial [4, 5]) k mod q param128))
   \<and> (\<exists>R. oop_operator_mul (Polynomial [1, 2, 3]) (Polynomial [4, 5]) = Inr R
            \<and> length (coeffs R) = length (coeffs (Polynomial [1, 2, 3])) + length (coeffs (Polynomial [4, 5])) - 1
            \<and> (\<forall>k < length (coeffs R). coeffs R ! k = convolution (Polynomial [1, 2, 3]) (Polynomial [4, 5]) k mod MODULO))
   \<and> map (\<lambda>k. convolution (Polynomial [1, 2, 3]) (Polynomial [4, 5]) k mod q param128) [0, 1, 2, 3] = [4, 13, 5, 15]"
proof -
  have h: "coeffs (Polynomial [1, 2, 3]) \<noteq> [] \<or> coeffs (Polynomial [4, 5]) \<noteq> []"
    "length (coeffs (Polynomial [1, 2, 3])) + length (coeffs (Polynomial [4, 5])) - 1 \<le> max_size"
    by (simp_all add: max_size_def)
  have p: "list_all (\<lambda>a. list_all (\<lambda>b. in_int (a * b)) (coeffs (Polynomial [4, 5]))) (coeffs (Polynomial [1, 2, 3]))"
    by (simp add: in_int_def)
  then have p': "\<forall>i < length (coeffs (Polynomial [1, 2, 3])). \<forall>j < length (coeffs (Polynomial [4, 5])).
      in_int (coeffs (Polynomial [1, 2, 3]) ! i * coeffs (Polynomial [4, 5]) ! j)"
    unfolding list_all_length by blast
  have q: "0 < q param128 \<and> q param128 \<le> 2 ^ 30"
    by (simp add: param128_simps)
  have ne: "coeffs (Polynomial [1, 2, 3]) \<noteq> []"
    by simp
  have v: "map (\<lambda>k. convolution (Polynomial [1, 2, 3]) (Polynomial [4, 5]) k mod q param128) [0, 1, 2, 3]
      = [4, 13, 5, 15]"
    by (simp add: convolution_def param128_simps eval_nat_numeral)
  from multiply_is_convolution [OF h p', of param128] h(2) p q ne v show ?thesis
    by blast
qed

text \<open>
  For two empty polynomials the size \<open>0 + 0 - 1\<close> is computed in \<open>size_t\<close>, and
  the vector constructor throws: there is no result, of any length.
\<close>

theorem multiply_empty_by_empty_throws:
  "operator_mul param128 (Polynomial []) (Polynomial []) = Inl LengthError
   \<and> oop_operator_mul (Polynomial []) (Polynomial []) = Inl LengthError"
  by (simp add: operator_mul_def oop_operator_mul_def max_size_def Let_def)

text \<open>
  Claim C6, as amended.  In \<open>main.cpp\<close> the operators take no parameter set and
  reduce modulo 17: as long as the sums \<open>A[i] + B[i]\<close> are within \<open>int\<close>, the sum
  of two polynomials has the coefficients \<open>(A[i] + B[i]) mod 17\<close>, and as long as
  the products \<open>A[i] * B[j]\<close> are within \<open>int\<close> (and the operands are not both
  empty), every coefficient of a product is the convolution sum modulo 17.  So
  \<open>[6] * [6]\<close> is \<open>[2]\<close>, whereas modulo 23, the modulus of the second preset,
  \<open>6 * 6\<close> is 13.
\<close>

theorem oop_arithmetic_reduces_modulo_17:
  "((\<forall>i < max (length (coeffs A)) (length (coeffs B)). in_int (coeff A i + coeff B i))
        \<longrightarrow> oop_operator_add A B = Polynomial (map (\<lambda>i. (coeff A i + coeff B i) mod 17)
              [0..<max (length (coeffs A)) (length (coeffs B))]))
   \<and> ((coeffs A \<noteq> [] \<or> coeffs B \<noteq> []) \<and> length (coeffs A) + length (coeffs B) - 1 \<le> max_size
        \<and> (\<forall>i < length (coeffs A). \<forall>j < length (coeffs B). in_int (coeffs A ! i * coeffs B ! j))
        \<longrightarrow> (\<exists>R. oop_operator_mul A B = Inr R
              \<and> length (coeffs R) = length (coeffs A) + length (coeffs B) - 1
              \<and> (\<forall>k < length (coeffs R). coeffs R ! k = convolution A B k mod 17)))
   \<and> oop_operator_mul (Polynomial [6]) (Polynomial [6]) = Inr (Polynomial [2])
   \<and> (6 * 6) mod modulo oop_param192 = 13"
proof (intro conjI impI)
  assume a: "\<forall>i < max (length (coeffs A)) (length (coeffs B)). in_int (coeff A i + coeff B i)"
  have "in_int (coeff A i + coeff B i)" for i
  proof (cases "i < max (length (coeffs A)) (length (coeffs B))")
    case True
    with a show ?thesis by simp
  next
    case False
    then have "\<not> i < length (coeffs A)" "\<not> i < length (coeffs B)"
      by simp_all
    then show ?thesis by (simp add: coeff_def in_int_def)
  qed
  then show "oop_operator_add A B = Polynomial (map (\<lambda>i. (coeff A i + coeff B i) mod 17)
       [0..<max (length (coeffs A)) (length (coeffs B))])"
    by (simp add: oop_operator_add_eq MODULO_def)
next
  assume a: "(coeffs A \<noteq> [] \<or> coeffs B \<noteq> []) \<and> length (coeffs A) + length (coeffs B) - 1 \<le> max_size
        \<and> (\<forall>i < length (coeffs A). \<forall>j < length (coeffs B). in_int (coeffs A ! i * coeffs B ! j))"
  have "0 < q (param128\<lparr>q := MODULO\<rparr>)" "q (param128\<lparr>q := MODULO\<rparr>) \<le> 2 ^ 30"
    by (simp_all add: MODULO_def)
  from operator_mul_ok [OF this, of A B] a
  show "\<exists>R. oop_operator_mul A B = Inr R
              \<and> length (coeffs R) = length (coeffs A) + length (coeffs B) - 1
              \<and> (\<forall>k < length (coeffs R). coeffs R ! k = convolution A B k mod 17)"
    by (simp add: oop_operator_mul_eq [of A B param128] MODULO_def)
next
  have f: "FieldArithmetic_add 0 (FieldArithmetic_mul 6 6 17) 17 = 2"
    by (simp add: FieldArithmetic_add_eq FieldArithmetic_mul_eq add_def mul_def mod_fn_def wrap_def
        signed_modulo_int_def)
  show "oop_operator_mul (Polynomial [6]) (Polynomial [6]) = Inr (Polynomial [2])"
    by (simp add: oop_operator_mul_def max_size_def Let_def MODULO_def f)
next
  show "(6 * 6) mod modulo oop_param192 = 13"
    by (simp add: oop_param192_def)
qed

theorem oop_arithmetic_reduces_modulo_17_witness:
  "list_all (\<lambda>i. in_int (coeff (Polynomial [16, 3]) i + coeff (Polynomial [5]) i))
        [0..<max (length (coeffs (Polynomial [16, 3]))) (length (coeffs (Polynomial [5])))]
   \<and> oop_operator_add (Polynomial [16, 3]) (Polynomial [5]) = Polynomial (map (\<lambda>i. (coeff (Polynomial [16, 3]) i + coeff (Polynomial [5]) i) mod 17)
       [0..<max (length (coeffs (Polynomial [16, 3]))) (length (coeffs (Polynomial [5])))])
   \<and> coeffs (Polynomial [16, 3]) \<noteq> []
   \<and> length (coeffs (Polynomial [16, 3])) + length (coeffs (Polynomial [5])) - 1 \<le> max_size
   \<and> list_all (\<lambda>a. list_all (\<lambda>b. in_int (a * b)) (coeffs (Polynomial [5]))) (coeffs (Polynomial [16, 3]))
   \<and> (\<exists>R. oop_operator_mul (Polynomial [16, 3]) (Polynomial [5]) = Inr R
              \<and> length (coeffs R) = length (coeffs (Polynomial [16, 3])) + length (coeffs (Polynomial [5])) - 1
              \<and> (\<forall>k < length (coeffs R). coeffs R ! k = convolution (Polynomial [16, 3]) (Polynomial [5]) k mod 17))"
proof -
  have s: "list_all (\<lambda>i. in_int (coeff (Polynomial [16, 3]) i + coeff (Polynomial [5]) i))
        [0..<max (length (coeffs (Polynomial [16, 3]))) (length (coeffs (Polynomial [5])))]"
    by (simp add: coeff_def in_int_def upt_conv_Cons)
  have s': "\<forall>i < max (length (coeffs (Polynomial [16, 3]))) (length (coeffs (Polynomial [5]))).
      in_int (coeff (Polynomial [16, 3]) i + coeff (Polynomial [5]) i)"
    by (auto simp: coeff_def in_int_def less_Suc_eq)
  have p: "list_all (\<lambda>a. list_all (\<lambda>b. in_int (a * b)) (coeffs (Polynomial [5]))) (coeffs (Polynomial [16, 3]))"
    by (simp add: in_int_def)
  then have p': "\<forall>i < length (coeffs (Polynomial [16, 3])). \<forall>j < length (coeffs (Polynomial [5])).
      in_int (coeffs (Polynomial [16, 3]) ! i * coeffs (Polynomial [5]) ! j)"
    unfolding list_all_length by blast
  have h: "(coeffs (Polynomial [16, 3]) \<noteq> [] \<or> coeffs (Polynomial [5]) \<noteq> [])
        \<and> length (coeffs (Polynomial [16, 3])) + length (coeffs (Polynomial [5])) - 1 \<le> max_size"
    by (simp add: max_size_def)
  have ne: "coeffs (Polynomial [16, 3]) \<noteq> []"
    by simp
  from oop_arithmetic_reduces_modulo_17 [of "Polynomial [16, 3]" "Polynomial [5]"] s s' p p' h ne
  show ?thesis
    by blast
qed

text \<open>
  Outside these bounds the coefficients are not the sums and products modulo 17:
  \<open>2147483647 + 1\<close> is \<open>-2147483648\<close> as an \<open>int\<close>, so \<open>[2147483647] + [1]\<close> is \<open>[8]\<close>
  and not \<open>[9]\<close>, and \<open>65536 * 65536\<close> is \<open>0\<close> as an \<open>int\<close>, so \<open>[65536] * [65536]\<close> is
  \<open>[0]\<close> and not \<open>[1]\<close>.
\<close>

theorem oop_arithmetic_wraps_before_reducing:
  "oop_operator_add (Polynomial [2147483647]) (Polynomial [1]) = Polynomial [8]
   \<and> (2147483647 + 1) mod 17 = (9 :: int)
   \<and> oop_operator_mul (Polynomial [65536]) (Polynomial [65536]) = Inr (Polynomial [0])
   \<and> (65536 * 65536) mod 17 = (1 :: int)"
proof (intro conjI)
  have a: "FieldArithmetic_add 2147483647 1 17 = 8"
    by (simp add: FieldArithmetic_add_eq add_def mod_fn_def wrap_def signed_modulo_int_def)
  show "oop_operator_add (Polynomial [2147483647]) (Polynomial [1]) = Polynomial [8]"
    by (simp add: oop_operator_add_def MODULO_def a)
  have m: "FieldArithmetic_add 0 (FieldArithmetic_mul 65536 65536 17) 17 = 0"
    by (simp add: FieldArithmetic_add_eq FieldArithmetic_mul_eq add_def mul_def mod_fn_def wrap_def
        signed_modulo_int_def)
  show "oop_operator_mul (Polynomial [65536]) (Polynomial [65536]) = Inr (Polynomial [0])"
    by (simp add: oop_operator_mul_def max_size_def Let_def MODULO_def m)
  show "(2147483647 + 1) mod 17 = (9 :: int)"
    by simp
  show "(65536 * 65536) mod 17 = (1 :: int)"
    by simp
qed

text \<open>
  Claim C10.  The degree of the empty polynomial is \<open>-1\<close>.  The product of the
  empty polynomial with itself is not the empty polynomial: in both variants the
  constructor of the result throws \<open>std::length_error\<close>.  (In the procedural variant
  the other laws of the claim hold, for coefficients in \<open>[0, q)\<close>: see \<open>zero_add\<close>
  and \<open>zero_mul_nonempty\<close>.)
\<close>

theorem zero_times_zero_throws:
  "degree (Polynomial []) = - 1
   \<and> operator_mul g (Polynomial []) (Polynomial []) = Inl LengthError
   \<and> oop_operator_mul (Polynomial []) (Polynomial []) = Inl LengthError"
  by (simp add: degree_empty operator_mul_def oop_operator_mul_def max_size_def Let_def)


section \<open>The round trip\<close>





end
